theory Spec2Isabelle
  imports Complex_Main "HOL-Library.Sublist" "HOL-Library.AList"
begin

section \<open>The plugin creation service: data model\<close>

text \<open>
  The development embeds \<^verbatim>\<open>PluginCreationService\<close> (the job orchestrator of the
  repository). Every \<^verbatim>\<open>throw\<close> of the source is a value of the model, every mutation
  of \<^verbatim>\<open>this\<close> or of a job object returns the updated record, and everything the code
  reads from outside (the wall clock, the identifier generator, child processes, the
  generation provider) is an argument.

  Times are milliseconds since the epoch, as \<^verbatim>\<open>Date.now()\<close> gives them. A function that
  reads the clock takes the reading as its argument \<open>now\<close>; the readings one call takes
  are not told apart. Strings are lists of 8-bit characters: a JavaScript string with a
  code unit above 255 has no counterpart here (such a name fails the name pattern
  anyway).
\<close>

type_synonym time = int

datatype status = Pending | Running | Completed | Failed | Cancelled

text \<open>One record of the error ledger \<^verbatim>\<open>job.errors\<close>.\<close>

record ledger_entry =
  e_iteration :: nat
  e_phase :: string
  e_error :: string
  e_timestamp :: time

text \<open>
  The child process handle stored in \<^verbatim>\<open>job.childProcess\<close>: what was spawned and the
  signals sent to it through \<^verbatim>\<open>kill\<close>. Node's \<^verbatim>\<open>killed\<close> flag is set once a signal
  has been sent.
\<close>

record child =
  c_command :: string
  c_args :: "string list"
  c_signals :: "string list"

definition killed :: "child \<Rightarrow> bool" where
  "killed c = (c_signals c \<noteq> [])"

definition kill :: "string \<Rightarrow> child \<Rightarrow> child" where
  "kill sig c = c\<lparr>c_signals := c_signals c @ [sig]\<rparr>"

record test_results =
  passed :: nat
  failed :: nat
  duration :: nat

text \<open>
  \<^verbatim>\<open>PluginCreationJob\<close>. Of the specification only the name takes part in the control
  flow; a log line \<^verbatim>\<open>[<ISO time>] <message>\<close> is the pair of the clock reading and the
  message. \<open>progress\<close> is the exact quotient, which the source computes in floating point.
\<close>

record job =
  job_id :: string
  spec_name :: string
  status :: status
  currentPhase :: string
  progress :: rat
  logs :: "(time \<times> string) list"
  error :: "string option"
  outputPath :: string
  startedAt :: time
  completedAt :: "time option"
  currentIteration :: nat
  maxIterations :: nat
  testResults :: "test_results option"
  validationScore :: "int option"
  childProcess :: "child option"
  errors :: "ledger_entry list"
  modelUsed :: "string option"

text \<open>
  The service object. \<^verbatim>\<open>jobs\<close> is a JavaScript \<^verbatim>\<open>Map\<close>: an association list in
  insertion order with one entry for each key. \<open>anthropic\<close> tells whether the provider
  client is configured (\<^verbatim>\<open>this.anthropic\<close> is not null). \<open>pluginDataDir\<close> is the
  runtime setting \<^verbatim>\<open>PLUGIN_DATA_DIR\<close> and \<open>cwd\<close> is \<^verbatim>\<open>process.cwd()\<close>.
\<close>

record service =
  jobs :: "(string \<times> job) list"
  anthropic :: bool
  selectedModel :: string
  createdPlugins :: "string set"
  lastJobCreation :: time
  jobCreationCount :: nat
  pluginDataDir :: "string option"
  cwd :: string

definition terminal :: "status \<Rightarrow> bool" where
  "terminal s = (s = Completed \<or> s = Failed \<or> s = Cancelled)"

definition OPUS_3 :: string where
  "OPUS_3 = ''claude-3-opus-20240229''"

text \<open>The state of a new service: the field initialisers of the class.\<close>

definition new_service :: "string option \<Rightarrow> string \<Rightarrow> service" where
  "new_service dataDir wd =
     \<lparr>jobs = [], anthropic = False, selectedModel = OPUS_3, createdPlugins = {},
      lastJobCreation = 0, jobCreationCount = 0, pluginDataDir = dataDir, cwd = wd\<rparr>"

section \<open>Logging and cancellation\<close>

definition log_line :: "time \<Rightarrow> string \<Rightarrow> job \<Rightarrow> job" where
  "log_line now message j = j\<lparr>logs := logs j @ [(now, message)]\<rparr>"

text \<open>\<^verbatim>\<open>logToJob\<close>: looks the job up by its identifier and does nothing when it is absent.\<close>

definition logToJob :: "time \<Rightarrow> string \<Rightarrow> string \<Rightarrow> service \<Rightarrow> service" where
  "logToJob now jobId message svc =
     (case map_of (jobs svc) jobId of
        None \<Rightarrow> svc
      | Some j \<Rightarrow> svc\<lparr>jobs := AList.update jobId (log_line now message j) (jobs svc)\<rparr>)"

definition kill_child :: "job \<Rightarrow> job" where
  "kill_child j =
     (case childProcess j of
        None \<Rightarrow> j
      | Some c \<Rightarrow> if \<not> killed c then j\<lparr>childProcess := Some (kill ''SIGTERM'' c)\<rparr> else j)"

definition cancelJob :: "time \<Rightarrow> string \<Rightarrow> service \<Rightarrow> service" where
  "cancelJob now jobId svc =
     (case map_of (jobs svc) jobId of
        None \<Rightarrow> svc
      | Some j \<Rightarrow>
          if status j = Pending \<or> status j = Running then
            (let j1 = j\<lparr>status := Cancelled, completedAt := Some now\<rparr>;
                 svc1 = svc\<lparr>jobs := AList.update jobId j1 (jobs svc)\<rparr>;
                 svc2 = logToJob now jobId ''Job cancelled by user'' svc1
             in case map_of (jobs svc2) jobId of
                  None \<Rightarrow> svc2
                | Some j2 \<Rightarrow> svc2\<lparr>jobs := AList.update jobId (kill_child j2) (jobs svc2)\<rparr>)
          else svc)"

section \<open>Admission: name validation, rate limit\<close>

definition string_includes :: "string \<Rightarrow> string \<Rightarrow> bool" where
  "string_includes s p = sublist p s"

definition backslash :: char where
  "backslash = CHR 0x5C"

text \<open>The character class \<^verbatim>\<open>[a-zA-Z0-9-_]\<close>.\<close>

definition name_char :: "char \<Rightarrow> bool" where
  "name_char c =
     (let n = (of_char c :: nat)
      in (97 \<le> n \<and> n \<le> 122) \<or> (65 \<le> n \<and> n \<le> 90) \<or> (48 \<le> n \<and> n \<le> 57)
         \<or> c = CHR ''-'' \<or> c = CHR ''_'')"

text \<open>
  \<^verbatim>\<open>/^@?[a-zA-Z0-9-_]+\/[a-zA-Z0-9-_]+$/\<close>: an optional \<^verbatim>\<open>@\<close>, a non-empty scope, one
  slash, a non-empty name, and nothing after it.
\<close>

definition validNameRegex :: "string \<Rightarrow> bool" where
  "validNameRegex s =
     (let r = (case s of [] \<Rightarrow> [] | c # cs \<Rightarrow> if c = CHR ''@'' then cs else s);
          scope = takeWhile name_char r;
          rest = dropWhile name_char r
      in scope \<noteq> [] \<and>
         (case rest of
            [] \<Rightarrow> False
          | c # nm \<Rightarrow> c = CHR ''/'' \<and> nm \<noteq> [] \<and> list_all name_char nm))"

definition isValidPluginName :: "string \<Rightarrow> bool" where
  "isValidPluginName nm =
     (validNameRegex nm \<and> \<not> string_includes nm ''..'' \<and> \<not> string_includes nm ''./''
      \<and> \<not> string_includes nm [backslash])"

definition toLowerCase :: "string \<Rightarrow> string" where
  "toLowerCase s =
     map (\<lambda>c. let n = (of_char c :: nat)
               in if 65 \<le> n \<and> n \<le> 90 then char_of (n + 32) else c) s"

text \<open>\<^verbatim>\<open>name.replace(/^@/, '').replace(/\//g, '-').toLowerCase()\<close>\<close>

definition sanitizePluginName :: "string \<Rightarrow> string" where
  "sanitizePluginName nm =
     toLowerCase
       (map (\<lambda>c. if c = CHR ''/'' then CHR ''-'' else c)
          (case nm of [] \<Rightarrow> [] | c # cs \<Rightarrow> if c = CHR ''@'' then cs else nm))"

definition oneHour :: int where
  "oneHour = 60 * 60 * 1000"

text \<open>
  \<^verbatim>\<open>checkRateLimit\<close> returns its verdict and the service with the counters as the call
  left them.
\<close>

definition checkRateLimit :: "time \<Rightarrow> service \<Rightarrow> bool \<times> service" where
  "checkRateLimit now svc =
     (let svc1 = (if now - lastJobCreation svc > oneHour
                  then svc\<lparr>jobCreationCount := 0\<rparr> else svc)
      in if jobCreationCount svc1 \<ge> 10 then (False, svc1)
         else (True, svc1\<lparr>lastJobCreation := now,
                          jobCreationCount := jobCreationCount svc1 + 1\<rparr>))"

section \<open>Paths\<close>

text \<open>
  \<^verbatim>\<open>path.join\<close> and \<open>path.resolve\<close> are Node's POSIX implementations. A path is cut
  at every slash; \<open>norm_step\<close> is one round of the loop of Node's \<^verbatim>\<open>normalizeString\<close> on
  the stack of segments kept so far (the last one first): empty segments and \<^verbatim>\<open>.\<close> are
  dropped, \<^verbatim>\<open>..\<close> removes the segment before it, or is kept when there is none and the
  path is relative.
\<close>

fun split_on :: "char \<Rightarrow> string \<Rightarrow> string list" where
  "split_on c [] = [[]]"
| "split_on c (x # xs) =
     (if x = c then [] # split_on c xs
      else (case split_on c xs of [] \<Rightarrow> [[x]] | s # ss \<Rightarrow> (x # s) # ss))"

fun join_with :: "string \<Rightarrow> string list \<Rightarrow> string" where
  "join_with sep [] = []"
| "join_with sep [x] = x"
| "join_with sep (x # y # ys) = x @ sep @ join_with sep (y # ys)"

definition norm_step :: "bool \<Rightarrow> string list \<Rightarrow> string \<Rightarrow> string list" where
  "norm_step allowAboveRoot st s =
     (if s = [] \<or> s = ''.'' then st
      else if s = ''..'' then
        (case st of
           [] \<Rightarrow> if allowAboveRoot then [''..''] else []
         | t # ts \<Rightarrow> if t = ''..'' then (if allowAboveRoot then ''..'' # st else st) else ts)
      else s # st)"

definition norm_segments :: "bool \<Rightarrow> string list \<Rightarrow> string list" where
  "norm_segments allowAboveRoot segs = rev (foldl (norm_step allowAboveRoot) [] segs)"

definition normalizeString :: "string \<Rightarrow> bool \<Rightarrow> string" where
  "normalizeString p allowAboveRoot =
     join_with ''/'' (norm_segments allowAboveRoot (split_on CHR ''/'' p))"

definition isAbsolute :: "string \<Rightarrow> bool" where
  "isAbsolute p = (case p of [] \<Rightarrow> False | c # _ \<Rightarrow> c = CHR ''/'')"

definition posix_normalize :: "string \<Rightarrow> string" where
  "posix_normalize p =
     (if p = [] then ''.''
      else
        (let trailingSeparator = (last p = CHR ''/'');
             r = normalizeString p (\<not> isAbsolute p)
         in if r = [] then
              (if isAbsolute p then ''/'' else if trailingSeparator then ''./'' else ''.'')
            else
              (let r1 = (if trailingSeparator then r @ ''/'' else r)
               in if isAbsolute p then ''/'' @ r1 else r1)))"

definition posix_join :: "string list \<Rightarrow> string" where
  "posix_join parts =
     (let ne = filter (\<lambda>a. a \<noteq> []) parts
      in if ne = [] then ''.'' else posix_normalize (join_with ''/'' ne))"

text \<open>\<^verbatim>\<open>path.resolve(p)\<close> with one argument, in the working directory \<open>wd\<close>.\<close>

definition posix_resolve :: "string \<Rightarrow> string \<Rightarrow> string" where
  "posix_resolve wd p =
     (let r0 = (if p = [] then [] else p @ ''/'');
          r1 = (if isAbsolute p then r0 else if wd = [] then r0 else wd @ ''/'' @ r0);
          resolvedAbsolute = (if isAbsolute p then True else isAbsolute wd);
          r = normalizeString r1 (\<not> resolvedAbsolute)
      in if resolvedAbsolute then ''/'' @ r else if r \<noteq> [] then r else ''.'')"

definition startsWith :: "string \<Rightarrow> string \<Rightarrow> bool" where
  "startsWith s p = prefix p s"

definition getDataDir :: "service \<Rightarrow> string" where
  "getDataDir svc =
     (case pluginDataDir svc of
        Some d \<Rightarrow> if d \<noteq> [] then d else posix_join [cwd svc, ''data'']
      | None \<Rightarrow> posix_join [cwd svc, ''data''])"

section \<open>Path segments and descendants\<close>

text \<open>
  A plain segment names one directory entry: it is not empty, not \<^verbatim>\<open>.\<close> or \<^verbatim>\<open>..\<close>, and has
  no slash. \<open>descendant base p\<close> says that the absolute path \<open>p\<close> lies strictly below the
  absolute path \<open>base\<close> in the directory tree, both read through normalisation.
\<close>

definition plain :: "string \<Rightarrow> bool" where
  "plain s = (s \<noteq> [] \<and> s \<noteq> ''.'' \<and> s \<noteq> ''..'' \<and> CHR ''/'' \<notin> set s)"

definition kept :: "string list \<Rightarrow> bool" where
  "kept st = list_all (\<lambda>t. t \<noteq> [] \<and> t \<noteq> ''.'') st"

definition nosep :: "string list \<Rightarrow> bool" where
  "nosep st = list_all (\<lambda>t. CHR ''/'' \<notin> set t) st"

definition resolved_segments :: "string \<Rightarrow> string \<Rightarrow> string list" where
  "resolved_segments wd d =
     rev (foldl (norm_step False)
            (if isAbsolute d then [] else foldl (norm_step False) [] (split_on CHR ''/'' wd))
            (split_on CHR ''/'' d))"

definition descendant :: "string \<Rightarrow> string \<Rightarrow> bool" where
  "descendant base p =
     (isAbsolute base \<and> isAbsolute p \<and>
      strict_prefix (norm_segments False (split_on CHR ''/'' base))
                    (norm_segments False (split_on CHR ''/'' p)))"

text \<open>
  What \<^verbatim>\<open>uuidv4()\<close> returns: 36 characters, hyphens at positions 8, 13, 18 and 23,
  lower-case hexadecimal digits elsewhere.
\<close>

definition hex_digit :: "char \<Rightarrow> bool" where
  "hex_digit c = (c \<in> set ''0123456789abcdef'')"

definition is_uuid :: "string \<Rightarrow> bool" where
  "is_uuid s =
     (length s = 36 \<and>
      list_all (\<lambda>i. if i \<in> {8, 13, 18, 23} then s ! i = CHR ''-'' else hex_digit (s ! i))
        [0..<36])"

section \<open>Creating a job\<close>

text \<open>
  The errors \<^verbatim>\<open>createPlugin\<close> throws, named as the specification names them; \<open>message\<close>
  gives the text of the \<^verbatim>\<open>Error\<close> thrown.
\<close>

datatype error =
  DuplicateArtifact string | InvalidName | RateLimited | CapacityExceeded | UnsafeOutputPath

fun message :: "error \<Rightarrow> string" where
  "message (DuplicateArtifact nm) = ''Plugin '' @ nm @ '' has already been created in this session''"
| "message InvalidName = ''Invalid plugin name. Must follow format: @scope/plugin-name''"
| "message RateLimited = ''Rate limit exceeded. Please wait before creating another plugin.''"
| "message CapacityExceeded =
     ''Maximum number of concurrent jobs reached. Please wait for existing jobs to complete.''"
| "message UnsafeOutputPath = ''Invalid output path''"

definition truthy :: "string option \<Rightarrow> bool" where
  "truthy v = (case v of None \<Rightarrow> False | Some s \<Rightarrow> s \<noteq> [])"

text \<open>The job object \<^verbatim>\<open>createPlugin\<close> builds.\<close>

definition new_job :: "time \<Rightarrow> string \<Rightarrow> string \<Rightarrow> string \<Rightarrow> string \<Rightarrow> job" where
  "new_job now jobId nm path mdl =
     \<lparr>job_id = jobId, spec_name = nm, status = Pending,
      currentPhase = ''initializing'', progress = 0, logs = [],
      error = None, outputPath = path, startedAt = now,
      completedAt = None, currentIteration = 0, maxIterations = 5,
      testResults = None, validationScore = None,
      childProcess = None, errors = [], modelUsed = Some mdl\<rparr>"

text \<open>
  \<^verbatim>\<open>createPlugin(specification, apiKey, options)\<close>. \<open>nm\<close> is \<^verbatim>\<open>specification.name\<close>,
  \<open>model\<close> is \<^verbatim>\<open>options.model\<close> and \<open>jobId\<close> is the identifier \<^verbatim>\<open>uuidv4()\<close> returns. The
  result is the error thrown or the identifier returned, with the service as the call
  left it: a \<^verbatim>\<open>throw\<close> does not undo the assignments made before it. The pipeline the
  call starts in the background has not changed the job when the call returns (it is
  suspended at its first \<^verbatim>\<open>await\<close>); it is modelled below.
\<close>

definition createPlugin ::
  "time \<Rightarrow> string \<Rightarrow> string \<Rightarrow> string option \<Rightarrow> string option \<Rightarrow> service
   \<Rightarrow> (error + string) \<times> service" where
  "createPlugin now jobId nm apiKey model svc =
     (if nm \<in> createdPlugins svc then (Inl (DuplicateArtifact nm), svc)
      else if \<not> isValidPluginName nm then (Inl InvalidName, svc)
      else
        (case checkRateLimit now svc of
           (ok, svc1) \<Rightarrow>
             if \<not> ok then (Inl RateLimited, svc1)
             else if length (jobs svc1) \<ge> 10 then (Inl CapacityExceeded, svc1)
             else
               (let svc2 = (if truthy apiKey then svc1\<lparr>anthropic := True\<rparr> else svc1);
                    mdl = (case model of
                             None \<Rightarrow> selectedModel svc2
                           | Some m \<Rightarrow> if m \<noteq> [] then m else selectedModel svc2);
                    sanitizedName = sanitizePluginName nm;
                    outPath = posix_join [getDataDir svc2, ''plugins'', jobId, sanitizedName];
                    resolvedPath = posix_resolve (cwd svc2) outPath;
                    dataDir = posix_resolve (cwd svc2) (getDataDir svc2)
                in if \<not> startsWith resolvedPath dataDir then (Inl UnsafeOutputPath, svc2)
                   else
                     (let j = new_job now jobId nm resolvedPath mdl;
                          j1 = (if \<not> anthropic svc2 \<and> \<not> truthy apiKey
                                then j\<lparr>status := Pending\<rparr> else j)
                      in (Inr jobId,
                          svc2\<lparr>jobs := AList.update jobId j1 (jobs svc2),
                               createdPlugins := insert nm (createdPlugins svc2)\<rparr>)))))"

section \<open>The process execution harness\<close>

text \<open>
  \<^verbatim>\<open>runCommand\<close> spawns a child process and returns a promise. What the child does is the
  list of events Node delivers, in order: a chunk on \<^verbatim>\<open>stdout\<close> or \<^verbatim>\<open>stderr\<close> (both go to
  \<^verbatim>\<open>handleData\<close>), \<^verbatim>\<open>error\<close> with its code and message, \<^verbatim>\<open>exit\<close>, \<^verbatim>\<open>close\<close> with the
  exit code (none when a signal ended the process), and the expiry of the five-minute
  timer. A chunk is a \<^verbatim>\<open>Buffer\<close>: its length in bytes and the text \<^verbatim>\<open>toString()\<close> decodes
  from it. \<open>spawn\<close> is taken to return a handle, every failure to start arriving as an
  \<^verbatim>\<open>error\<close> event, as the handler in the source expects.

  The harness state holds the variables of the closure (\<^verbatim>\<open>output\<close>, \<^verbatim>\<open>outputSize\<close>),
  whether the timer is still armed, the value the promise is settled with (none while it
  is pending; \<^verbatim>\<open>resolve\<close> after the first has no effect) and the job, whose logs the
  handlers append to and whose \<^verbatim>\<open>childProcess\<close> is the spawned handle. The job is the
  one tracked under its identifier, so \<^verbatim>\<open>logToJob(job.id, m)\<close> is \<open>log_line\<close> on it.
  \<open>run_events\<close> delivers events until the promise settles: the state then is the one the
  awaiting caller goes on with. \<open>which\<close> tells which package managers the host has
  (the \<^verbatim>\<open>execSync('which ...')\<close> probes).
\<close>

datatype buffer = Buffer (byte_length: nat) (toString: string)

record cmd_result =
  success :: bool
  outputText :: string

datatype event =
  OnData buffer | OnError string string | OnExit | OnClose "int option" | OnTimeout

record harness =
  h_job :: job
  h_output :: string
  h_outputSize :: nat
  h_timer :: bool
  h_result :: "cmd_result option"

definition maxOutputSize :: nat where
  "maxOutputSize = 1024 * 1024"

definition truncation_marker :: string where
  "truncation_marker = CHR 0x0A # ''[Output truncated due to size limit]''"

definition timeout_marker :: string where
  "timeout_marker = CHR 0x0A # ''[Process killed due to timeout]''"

definition apostrophe :: char where
  "apostrophe = CHR 0x27"

definition handleData :: "time \<Rightarrow> harness \<Rightarrow> buffer \<Rightarrow> harness" where
  "handleData now h d =
     (let h1 = h\<lparr>h_outputSize := h_outputSize h + byte_length d\<rparr>
      in if h_outputSize h1 < maxOutputSize then h1\<lparr>h_output := h_output h1 @ toString d\<rparr>
         else if h_outputSize h1 \<ge> maxOutputSize
                 \<and> \<not> string_includes (h_output h1) ''Output truncated''
         then h1\<lparr>h_output := h_output h1 @ truncation_marker,
                  h_job := log_line now ''Output truncated due to size limit'' (h_job h1)\<rparr>
         else h1)"

definition resolve :: "cmd_result \<Rightarrow> harness \<Rightarrow> harness" where
  "resolve r h = (case h_result h of None \<Rightarrow> h\<lparr>h_result := Some r\<rparr> | Some _ \<Rightarrow> h)"

definition signal_child :: "string \<Rightarrow> job \<Rightarrow> job" where
  "signal_child sig j =
     (case childProcess j of None \<Rightarrow> j | Some c \<Rightarrow> j\<lparr>childProcess := Some (kill sig c)\<rparr>)"

definition on_event :: "time \<Rightarrow> string \<Rightarrow> harness \<Rightarrow> event \<Rightarrow> harness" where
  "on_event now actualCommand h ev =
     (case ev of
        OnData d \<Rightarrow> handleData now h d
      | OnError code msg \<Rightarrow>
          if code = ''ENOENT'' then
            resolve \<lparr>success = False,
                     outputText = ''Error: Command '' @ [apostrophe] @ actualCommand @ [apostrophe]
                              @ '' not found. '' @ msg\<rparr>
              (h\<lparr>h_job := log_line now
                     (''Command '' @ [apostrophe] @ actualCommand @ [apostrophe] @ '' not found'')
                     (h_job h)\<rparr>)
          else
            resolve \<lparr>success = False, outputText = ''Process error: '' @ msg\<rparr>
              (h\<lparr>h_job := log_line now (''Process error: '' @ msg) (h_job h)\<rparr>)
      | OnClose code \<Rightarrow> resolve \<lparr>success = (code = Some 0), outputText = h_output h\<rparr> h
      | OnTimeout \<Rightarrow>
          if h_timer h then
            resolve \<lparr>success = False, outputText = h_output h @ timeout_marker\<rparr>
              (h\<lparr>h_timer := False, h_job := signal_child ''SIGTERM'' (h_job h)\<rparr>)
          else h
      | OnExit \<Rightarrow> h\<lparr>h_timer := False\<rparr>)"

fun run_events :: "time \<Rightarrow> string \<Rightarrow> harness \<Rightarrow> event list \<Rightarrow> harness" where
  "run_events now actualCommand h [] = h"
| "run_events now actualCommand h (e # es) =
     (let h1 = on_event now actualCommand h e
      in case h_result h1 of
           None \<Rightarrow> run_events now actualCommand h1 es
         | Some _ \<Rightarrow> h1)"

definition packageManagers :: "string list" where
  "packageManagers = [''bun'', ''pnpm'', ''yarn'', ''npm'']"

definition adjust_args :: "string list \<Rightarrow> string list" where
  "adjust_args args =
     (case args of
        [] \<Rightarrow> args
      | a # rest \<Rightarrow>
          if a = ''install'' then [''install'']
          else if a = ''run'' then ''run'' # rest
          else if a = ''test'' then [''test'']
          else args)"

definition resolve_tool ::
  "(string \<Rightarrow> bool) \<Rightarrow> string \<Rightarrow> string list \<Rightarrow> string \<times> string list \<times> string option" where
  "resolve_tool which command args =
     (if command = ''npm'' then
        (case find which packageManagers of
           None \<Rightarrow> (command, args, None)
         | Some pm \<Rightarrow> (pm, adjust_args args, Some pm))
      else (command, args, None))"

definition start_harness :: "job \<Rightarrow> harness" where
  "start_harness j =
     \<lparr>h_job = j, h_output = [], h_outputSize = 0, h_timer = True, h_result = None\<rparr>"

definition spawn_state ::
  "time \<Rightarrow> (string \<Rightarrow> bool) \<Rightarrow> job \<Rightarrow> string \<Rightarrow> string list \<Rightarrow> string \<Rightarrow> harness" where
  "spawn_state now which j command args description =
     (case resolve_tool which command args of
        (actualCommand, actualArgs, pm) \<Rightarrow>
          (let j1 = log_line now (description @ '' for '' @ spec_name j) j;
               j2 = (case pm of
                       None \<Rightarrow> j1
                     | Some p \<Rightarrow> log_line now (''Using '' @ p @ '' as package manager'') j1);
               c = \<lparr>c_command = actualCommand, c_args = actualArgs, c_signals = []\<rparr>
           in start_harness (j2\<lparr>childProcess := Some c\<rparr>)))"

definition runCommand ::
  "time \<Rightarrow> (string \<Rightarrow> bool) \<Rightarrow> job \<Rightarrow> string \<Rightarrow> string list \<Rightarrow> string \<Rightarrow> event list
   \<Rightarrow> harness" where
  "runCommand now which j command args description events =
     run_events now (fst (resolve_tool which command args))
       (spawn_state now which j command args description) events"


text \<open>
  The text of the chunks taken into the buffer, from \<open>n\<close> bytes already counted: every
  chunk up to the first that brings the count of bytes to the cap.
\<close>

fun accepted :: "nat \<Rightarrow> buffer list \<Rightarrow> string" where
  "accepted n [] = []"
| "accepted n (d # ds) =
     (if n + byte_length d < maxOutputSize
      then toString d @ accepted (n + byte_length d) ds else [])"

text \<open>A chunk of one mebibyte.\<close>

definition big_chunk :: buffer where
  "big_chunk = Buffer 1048576 (replicate 1048576 CHR ''x'')"

section \<open>The iteration pipeline\<close>

text \<open>
  What the outside does in one iteration is the record \<open>iteration_env\<close>: the clock
  reading, whether the generation step (the provider call and the writing of the files
  it returns) throws and with what message, the events of the four child processes, the
  outcome of the validation request, and whether preparing the next iteration throws.
  \<open>parse\<close> stands for the regular-expression search of \<^verbatim>\<open>parseTestResults\<close>. A phase
  that awaits a command whose promise never settles never returns: the value \<open>None\<close>.

  \<open>ValidationFails\<close> is an exception inside the \<^verbatim>\<open>try\<close> of \<^verbatim>\<open>validatePlugin\<close> (collecting
  the files, the request, \<^verbatim>\<open>JSON.parse\<close>); \<open>Verdict\<close> is a well-formed answer: score,
  \<^verbatim>\<open>production_ready\<close> and the issues. \<open>or_default v d\<close> is JavaScript's \<^verbatim>\<open>v || d\<close> on an
  optional string.
\<close>

definition or_default :: "string option \<Rightarrow> string \<Rightarrow> string" where
  "or_default v d = (case v of None \<Rightarrow> d | Some s \<Rightarrow> if s = [] then d else s)"

fun string_of_nat :: "nat \<Rightarrow> string" where
  "string_of_nat n =
     (if n < 10 then [char_of (48 + n)]
      else string_of_nat (n div 10) @ [char_of (48 + n mod 10)])"

declare string_of_nat.simps [simp del]

definition string_of_int :: "int \<Rightarrow> string" where
  "string_of_int i = (if i < 0 then CHR ''-'' # string_of_nat (nat (- i)) else string_of_nat (nat i))"

datatype validation = ValidationFails string | Verdict int bool "string list"

record iteration_env =
  clock :: time
  generation :: "string option"
  install_events :: "event list"
  build_events :: "event list"
  lint_events :: "event list"
  test_events :: "event list"
  validation :: validation
  preparation :: "string option"

definition no_provider_message :: string where
  "no_provider_message = ''AI code generation not available without ANTHROPIC_API_KEY''"

definition generatePluginCode :: "bool \<Rightarrow> string option \<Rightarrow> job \<Rightarrow> string + job" where
  "generatePluginCode anth gen j =
     (if \<not> anth then Inl no_provider_message
      else case gen of Some m \<Rightarrow> Inl m | None \<Rightarrow> Inr j)"

definition buildPlugin ::
  "time \<Rightarrow> (string \<Rightarrow> bool) \<Rightarrow> event list \<Rightarrow> event list \<Rightarrow> job \<Rightarrow> (bool \<times> job) option" where
  "buildPlugin now which ev_install ev_build j =
     (let h1 = runCommand now which j ''npm'' [''install''] ''Installing dependencies'' ev_install
      in case h_result h1 of
           None \<Rightarrow> None
         | Some _ \<Rightarrow>
             (let h2 = runCommand now which (h_job h1) ''npm'' [''run'', ''build'']
                         ''Building plugin'' ev_build
              in case h_result h2 of
                   None \<Rightarrow> None
                 | Some r \<Rightarrow>
                     if \<not> success r then Some (False, (h_job h2)\<lparr>error := Some (outputText r)\<rparr>)
                     else Some (True, h_job h2)))"

definition lintPlugin ::
  "time \<Rightarrow> (string \<Rightarrow> bool) \<Rightarrow> event list \<Rightarrow> job \<Rightarrow> (bool \<times> job) option" where
  "lintPlugin now which ev j =
     (let h = runCommand now which j ''npm'' [''run'', ''lint''] ''Linting plugin'' ev
      in case h_result h of
           None \<Rightarrow> None
         | Some r \<Rightarrow>
             if \<not> success r then Some (False, (h_job h)\<lparr>error := Some (outputText r)\<rparr>)
             else Some (True, h_job h))"

definition testPlugin ::
  "time \<Rightarrow> (string \<Rightarrow> bool) \<Rightarrow> (string \<Rightarrow> test_results) \<Rightarrow> event list \<Rightarrow> job
   \<Rightarrow> (bool \<times> job) option" where
  "testPlugin now which parse ev j =
     (let h = runCommand now which j ''npm'' [''test''] ''Running tests'' ev
      in case h_result h of
           None \<Rightarrow> None
         | Some r \<Rightarrow>
             (let tr = parse (outputText r);
                  j1 = (h_job h)\<lparr>testResults := Some tr\<rparr>
              in if \<not> success r \<or> failed tr > 0
                 then Some (False, j1\<lparr>error := Some (string_of_nat (failed tr) @ '' tests failed'')\<rparr>)
                 else Some (True, j1)))"

definition validatePlugin :: "bool \<Rightarrow> validation \<Rightarrow> job \<Rightarrow> bool \<times> job" where
  "validatePlugin anth v j =
     (if \<not> anth then (True, j)
      else case v of
             ValidationFails m \<Rightarrow> (False, j\<lparr>error := Some m\<rparr>)
           | Verdict score ready issues \<Rightarrow>
               (let j1 = j\<lparr>validationScore := Some score\<rparr>
                in if \<not> ready
                   then (False, j1\<lparr>error := Some (''Score: '' @ string_of_int score
                                    @ ''/100. Issues: '' @ join_with '', '' issues)\<rparr>)
                   else (True, j1)))"

definition record_failure :: "time \<Rightarrow> string \<Rightarrow> string \<Rightarrow> job \<Rightarrow> job" where
  "record_failure now ph dflt j =
     j\<lparr>errors := errors j @
          [\<lparr>e_iteration = currentIteration j, e_phase = ph,
            e_error = or_default (error j) dflt, e_timestamp = now\<rparr>]\<rparr>"

definition caught :: "time \<Rightarrow> string \<Rightarrow> job \<Rightarrow> job" where
  "caught now m j =
     log_line now (''Error in iteration: '' @ m)
       (j\<lparr>error := Some m, completedAt := Some now,
          errors := errors j @
            [\<lparr>e_iteration = currentIteration j, e_phase = currentPhase j,
              e_error = m, e_timestamp = now\<rparr>]\<rparr>)"

definition runSingleIteration ::
  "bool \<Rightarrow> (string \<Rightarrow> bool) \<Rightarrow> (string \<Rightarrow> test_results) \<Rightarrow> iteration_env \<Rightarrow> job
   \<Rightarrow> (bool \<times> job) option" where
  "runSingleIteration anth which parse env j =
     (let now = clock env;
          j0 = j\<lparr>currentPhase := ''generating''\<rparr>
      in case generatePluginCode anth (generation env) j0 of
           Inl m \<Rightarrow> Some (False, caught now m j0)
         | Inr j1 \<Rightarrow>
            (case buildPlugin now which (install_events env) (build_events env)
                    (j1\<lparr>currentPhase := ''building''\<rparr>) of
               None \<Rightarrow> None
             | Some (buildSuccess, j2) \<Rightarrow>
                 if \<not> buildSuccess
                 then Some (False, record_failure now ''building'' ''Build failed'' j2)
                 else
                  (case lintPlugin now which (lint_events env) (j2\<lparr>currentPhase := ''linting''\<rparr>) of
                     None \<Rightarrow> None
                   | Some (lintSuccess, j3) \<Rightarrow>
                       if \<not> lintSuccess
                       then Some (False, record_failure now ''linting'' ''Lint failed'' j3)
                       else
                        (case testPlugin now which parse (test_events env)
                                (j3\<lparr>currentPhase := ''testing''\<rparr>) of
                           None \<Rightarrow> None
                         | Some (testSuccess, j4) \<Rightarrow>
                             if \<not> testSuccess
                             then Some (False, record_failure now ''testing'' ''Tests failed'' j4)
                             else
                              (case validatePlugin anth (validation env)
                                      (j4\<lparr>currentPhase := ''validating''\<rparr>) of
                                 (validationSuccess, j5) \<Rightarrow>
                                   if \<not> validationSuccess
                                   then Some (False,
                                     record_failure now ''validating'' ''Validation failed'' j5)
                                   else Some (True, j5))))))"



text \<open>
  The phases change only the logs, the child process handle, the error text and the
  test and validation results of a job. The loop of \<^verbatim>\<open>runCreationProcess\<close> ends because
  of that: each round raises \<open>currentIteration\<close> by one and nothing lowers it.
\<close>

definition untouched :: "job \<Rightarrow> job \<Rightarrow> bool" where
  "untouched j j' =
     (job_id j' = job_id j \<and> spec_name j' = spec_name j \<and> status j' = status j \<and>
      currentPhase j' = currentPhase j \<and> progress j' = progress j \<and>
      outputPath j' = outputPath j \<and> startedAt j' = startedAt j \<and>
      completedAt j' = completedAt j \<and> currentIteration j' = currentIteration j \<and>
      maxIterations j' = maxIterations j \<and> errors j' = errors j \<and>
      modelUsed j' = modelUsed j)"

lemma untouched_refl: "untouched j j"
  by (simp add: untouched_def)

lemma untouched_trans: "untouched a b \<Longrightarrow> untouched b c \<Longrightarrow> untouched a c"
  by (simp add: untouched_def)

lemma handleData_untouched: "untouched (h_job h) (h_job (handleData now h d))"
  by (simp add: handleData_def Let_def untouched_def log_line_def)

lemma resolve_job: "h_job (resolve r h) = h_job h"
  by (cases "h_result h") (simp_all add: resolve_def)

lemma on_event_untouched: "untouched (h_job h) (h_job (on_event now cmd h e))"
proof (cases e)
  case (OnData d)
  then show ?thesis by (simp add: on_event_def handleData_untouched)
next
  case (OnError code msg)
  then show ?thesis by (simp add: on_event_def resolve_job untouched_def log_line_def)
next
  case OnExit
  then show ?thesis by (simp add: on_event_def untouched_def)
next
  case (OnClose c)
  then show ?thesis by (simp add: on_event_def resolve_job untouched_def)
next
  case OnTimeout
  then show ?thesis
    by (simp add: on_event_def resolve_job untouched_def signal_child_def split: option.splits)
qed

lemma run_events_untouched: "untouched (h_job h) (h_job (run_events now cmd h es))"
proof (induction es arbitrary: h)
  case Nil
  show ?case by (simp add: untouched_refl)
next
  case (Cons e es)
  have 1: "untouched (h_job h) (h_job (on_event now cmd h e))" by (rule on_event_untouched)
  show ?case
  proof (cases "h_result (on_event now cmd h e)")
    case None
    with untouched_trans [OF 1 Cons.IH [of "on_event now cmd h e"]] show ?thesis by simp
  next
    case (Some r)
    with 1 show ?thesis by simp
  qed
qed

lemma spawn_state_untouched:
  "untouched j (h_job (spawn_state now which j command args description))"
  by (simp add: spawn_state_def start_harness_def Let_def untouched_def log_line_def
      split: prod.splits option.splits)

lemma runCommand_untouched:
  "untouched j (h_job (runCommand now which j command args description events))"
  unfolding runCommand_def
  by (rule untouched_trans [OF spawn_state_untouched run_events_untouched])

lemma untouched_error: "untouched j j' \<Longrightarrow> untouched j (j'\<lparr>error := e\<rparr>)"
  by (simp add: untouched_def)

lemma buildPlugin_untouched:
  assumes "buildPlugin now which e1 e2 j = Some (ok, j')"
  shows "untouched j j'"
proof -
  let ?h1 = "runCommand now which j ''npm'' [''install''] ''Installing dependencies'' e1"
  let ?h2 = "runCommand now which (h_job ?h1) ''npm'' [''run'', ''build''] ''Building plugin'' e2"
  have u: "untouched j (h_job ?h2)"
    by (rule untouched_trans [OF runCommand_untouched runCommand_untouched])
  from assms have "j' = h_job ?h2 \<or> (\<exists>e. j' = (h_job ?h2)\<lparr>error := e\<rparr>)"
    by (auto simp: buildPlugin_def Let_def split: option.splits if_splits)
  with u show ?thesis by (auto intro: untouched_error)
qed
















section \<open>Sequences of creation requests and example states\<close>

text \<open>
  A creation request as the service receives it, with the clock reading and the
  identifier drawn when it is served; \<open>createAll\<close> serves a list of requests in order,
  each on the state the one before left.
\<close>

record request =
  r_at :: time
  r_uuid :: string
  r_name :: string
  r_apiKey :: "string option"
  r_model :: "string option"

fun createAll :: "request list \<Rightarrow> service \<Rightarrow> (error + string) list \<times> service" where
  "createAll [] svc = ([], svc)"
| "createAll (r # rs) svc =
     (case createPlugin (r_at r) (r_uuid r) (r_name r) (r_apiKey r) (r_model r) svc of
        (res, svc1) \<Rightarrow> (case createAll rs svc1 of (ress, svc2) \<Rightarrow> (res # ress, svc2)))"

definition created :: "error + string \<Rightarrow> bool" where
  "created res = (case res of Inl _ \<Rightarrow> False | Inr _ \<Rightarrow> True)"

definition ten_requests :: "request list" where
  "ten_requests =
     map (\<lambda>c. \<lparr>r_at = 5000000, r_uuid = ''00000000-0000-4000-8000-00000000000'' @ [c],
               r_name = ''@acme/plugin-'' @ [c], r_apiKey = None, r_model = None\<rparr>)
       ''0123456789''"

definition uuid11 :: string where
  "uuid11 = ''00000000-0000-4000-8000-00000000000a''"

text \<open>Concrete states and inputs on which the theorems below are instantiated.\<close>

definition uuid0 :: string where
  "uuid0 = ''3f2a9c4e-7b1d-4e8a-9c0f-5d6e7f8a9b0c''"

definition svc0 :: service where
  "svc0 = new_service (Some ''/var/data'') ''/home/agent''"

definition demo_job :: "string \<Rightarrow> status \<Rightarrow> time option \<Rightarrow> job" where
  "demo_job jobId s c =
     (new_job 1000 jobId ''@acme/plugin-demo'' ''/var/data/plugins/j/acme-plugin-demo'' OPUS_3)
       \<lparr>status := s, completedAt := c\<rparr>"

definition demo_service :: "job list \<Rightarrow> service" where
  "demo_service js = svc0\<lparr>jobs := map (\<lambda>j. (job_id j, j)) js\<rparr>"

definition quiet_env :: iteration_env where
  "quiet_env =
     \<lparr>clock = 6000, generation = None, install_events = [], build_events = [],
      lint_events = [], test_events = [], validation = Verdict 100 True [],
      preparation = None\<rparr>"


definition no_parse :: "string \<Rightarrow> test_results" where
  "no_parse s = \<lparr>passed = 0, failed = 0, duration = 0\<rparr>"

definition failing_build_env :: iteration_env where
  "failing_build_env =
     quiet_env\<lparr>install_events := [OnExit, OnClose (Some 0)],
               build_events := [OnData (Buffer 9 ''tsc error''), OnExit, OnClose (Some 2)]\<rparr>"

section \<open>Properties of the path functions\<close>

lemma norm_step_skip: "s = [] \<or> s = ''.'' \<Longrightarrow> norm_step a st s = st"
  unfolding norm_step_def by simp

lemma norm_step_push:
  "s \<noteq> [] \<Longrightarrow> s \<noteq> ''.'' \<Longrightarrow> s \<noteq> ''..'' \<Longrightarrow> norm_step a st s = s # st"
  unfolding norm_step_def by simp

lemma norm_step_up_Nil: "norm_step a [] ''..'' = (if a then [''..''] else [])"
  unfolding norm_step_def by simp

lemma norm_step_up_Cons:
  "norm_step a (t # ts) ''..'' =
     (if t = ''..'' then (if a then ''..'' # t # ts else t # ts) else ts)"
  unfolding norm_step_def by simp

lemma norm_step_plain: "plain s \<Longrightarrow> norm_step a st s = s # st"
  unfolding plain_def by (simp add: norm_step_push)

lemma foldl_norm_step_plain:
  "list_all plain ps \<Longrightarrow> foldl (norm_step a) st ps = rev ps @ st"
  by (induction ps arbitrary: st) (simp_all add: norm_step_plain)

lemma norm_step_abs_plain:
  assumes "list_all plain st" "CHR ''/'' \<notin> set s"
  shows "list_all plain (norm_step False st s)"
proof (cases "s = [] \<or> s = ''.''")
  case True
  then show ?thesis using assms(1) by (simp only: norm_step_skip)
next
  case nt: False
  then have n1: "s \<noteq> []" and n2: "s \<noteq> ''.''" by blast+
  show ?thesis
  proof (cases "s = ''..''")
    case dd: True
    show ?thesis
    proof (cases st)
      case Nil
      then show ?thesis by (simp add: dd norm_step_up_Nil)
    next
      case (Cons t ts)
      then have ts: "list_all plain ts" and "plain t" using assms(1) by simp_all
      then have "t \<noteq> ''..''" unfolding plain_def by blast
      then show ?thesis using ts by (simp add: dd Cons norm_step_up_Cons)
    qed
  next
    case False
    with n1 n2 assms(2) have "plain s" unfolding plain_def by blast
    moreover have "norm_step False st s = s # st"
      using n1 n2 False by (rule norm_step_push)
    ultimately show ?thesis using assms(1) by simp
  qed
qed

lemma kept_Cons: "kept (t # ts) = (t \<noteq> [] \<and> t \<noteq> ''.'' \<and> kept ts)"
  unfolding kept_def by simp

lemma kept_Nil: "kept []"
  unfolding kept_def by simp

lemma kept_dotdot: "kept (''..'' # ts) = kept ts"
  unfolding kept_def by simp

lemma norm_step_kept:
  assumes "kept st"
  shows "kept (norm_step a st s)"
proof (cases "s = [] \<or> s = ''.''")
  case True
  then show ?thesis using assms by (simp only: norm_step_skip)
next
  case nt: False
  then have n1: "s \<noteq> []" and n2: "s \<noteq> ''.''" by blast+
  show ?thesis
  proof (cases "s = ''..''")
    case dd: True
    show ?thesis
    proof (cases st)
      case Nil
      show ?thesis by (simp add: dd Nil norm_step_up_Nil kept_Nil kept_dotdot)
    next
      case (Cons t ts)
      have 1: "kept (t # ts)" using assms Cons by simp
      then have 2: "kept ts" by (simp only: kept_Cons)
      show ?thesis using 1 2 by (simp add: dd Cons norm_step_up_Cons kept_dotdot)
    qed
  next
    case False
    with n1 n2 have "norm_step a st s = s # st" by (intro norm_step_push)
    then show ?thesis using n1 n2 assms by (simp add: kept_Cons)
  qed
qed

lemma norm_step_rel_abs:
  assumes "kept s2"
  shows "foldl (norm_step False) st (rev (norm_step True s2 x))
         = norm_step False (foldl (norm_step False) st (rev s2)) x"
proof (cases "x = [] \<or> x = ''.''")
  case True
  then show ?thesis by (simp only: norm_step_skip)
next
  case nt: False
  then have n1: "x \<noteq> []" and n2: "x \<noteq> ''.''" by blast+
  show ?thesis
  proof (cases "x = ''..''")
    case False
    with n1 n2 have "\<And>a st. norm_step a st x = x # st" by (intro norm_step_push)
    then show ?thesis by simp
  next
    case dd: True
    show ?thesis
    proof (cases s2)
      case Nil
      show ?thesis by (simp add: dd Nil norm_step_up_Nil)
    next
      case (Cons t ts)
      show ?thesis
      proof (cases "t = ''..''")
        case True
        show ?thesis by (simp add: dd Cons norm_step_up_Cons True)
      next
        case False
        with assms Cons have "t \<noteq> []" "t \<noteq> ''.''" by (simp_all add: kept_Cons)
        with False have push: "\<And>a st. norm_step a st t = t # st" by (intro norm_step_push)
        have "norm_step True (t # ts) ''..'' = ts"
          using False by (simp add: norm_step_up_Cons)
        moreover have "norm_step False (t # foldl (norm_step False) st (rev ts)) ''..''
                       = foldl (norm_step False) st (rev ts)"
          using False by (simp add: norm_step_up_Cons)
        ultimately show ?thesis by (simp add: dd Cons push)
      qed
    qed
  qed
qed

lemma foldl_rel_abs:
  "kept s2 \<Longrightarrow>
   foldl (norm_step False) st (rev (foldl (norm_step True) s2 xs))
   = foldl (norm_step False) (foldl (norm_step False) st (rev s2)) xs"
proof (induction xs arbitrary: s2)
  case Nil
  show ?case by simp
next
  case (Cons x xs)
  have "kept (norm_step True s2 x)" using Cons.prems by (rule norm_step_kept)
  from Cons.IH [OF this] show ?case
    by (simp add: norm_step_rel_abs [OF Cons.prems])
qed

lemma norm_segments_rel_abs:
  "foldl (norm_step False) st (norm_segments True xs) = foldl (norm_step False) st xs"
  using foldl_rel_abs [of "[]" st xs] by (simp add: norm_segments_def kept_Nil)

lemma nosep_Cons: "nosep (t # ts) = (CHR ''/'' \<notin> set t \<and> nosep ts)"
  unfolding nosep_def by simp

lemma nosep_Nil: "nosep []"
  unfolding nosep_def by simp

lemma nosep_dotdot: "nosep (''..'' # ts) = nosep ts"
  unfolding nosep_def by simp

lemma norm_step_nosep:
  assumes "nosep st" "CHR ''/'' \<notin> set s"
  shows "nosep (norm_step a st s)"
proof (cases "s = [] \<or> s = ''.''")
  case True
  then show ?thesis using assms(1) by (simp only: norm_step_skip)
next
  case nt: False
  then have n1: "s \<noteq> []" and n2: "s \<noteq> ''.''" by blast+
  show ?thesis
  proof (cases "s = ''..''")
    case dd: True
    show ?thesis
    proof (cases st)
      case Nil
      show ?thesis by (simp add: dd Nil norm_step_up_Nil nosep_Nil nosep_dotdot)
    next
      case (Cons t ts)
      have 1: "nosep (t # ts)" using assms(1) Cons by simp
      then have 2: "nosep ts" by (simp only: nosep_Cons)
      show ?thesis using 1 2 by (simp add: dd Cons norm_step_up_Cons nosep_dotdot)
    qed
  next
    case False
    with n1 n2 have "norm_step a st s = s # st" by (intro norm_step_push)
    then show ?thesis using assms by (simp add: nosep_Cons)
  qed
qed

lemma foldl_norm_step_nosep:
  "nosep st \<Longrightarrow> nosep xs \<Longrightarrow> nosep (foldl (norm_step a) st xs)"
proof (induction xs arbitrary: st)
  case Nil
  then show ?case by simp
next
  case (Cons x xs)
  from Cons.prems(2) have x: "CHR ''/'' \<notin> set x" and xs: "nosep xs"
    by (simp_all add: nosep_Cons)
  have "nosep (norm_step a st x)" using Cons.prems(1) x by (rule norm_step_nosep)
  from Cons.IH [OF this xs] show ?case by simp
qed

lemma foldl_norm_step_abs_plain:
  "list_all plain st \<Longrightarrow> nosep xs \<Longrightarrow> list_all plain (foldl (norm_step False) st xs)"
proof (induction xs arbitrary: st)
  case Nil
  then show ?case by simp
next
  case (Cons x xs)
  from Cons.prems(2) have x: "CHR ''/'' \<notin> set x" and xs: "nosep xs"
    by (simp_all add: nosep_Cons)
  have "list_all plain (norm_step False st x)" using Cons.prems(1) x by (rule norm_step_abs_plain)
  from Cons.IH [OF this xs] show ?case by simp
qed

lemma split_on_not_Nil: "split_on c xs \<noteq> []"
  by (induction xs) (auto split: list.splits)

lemma split_on_append: "split_on c (xs @ c # ys) = split_on c xs @ split_on c ys"
proof (induction xs)
  case Nil
  show ?case by simp
next
  case (Cons x xs)
  obtain s ss where s: "split_on c xs = s # ss"
    using split_on_not_Nil [of c xs] by (cases "split_on c xs") auto
  show ?case using Cons s by simp
qed

lemma split_on_no_sep: "c \<notin> set xs \<Longrightarrow> split_on c xs = [xs]"
  by (induction xs) auto

lemma split_on_segments: "s \<in> set (split_on c xs) \<Longrightarrow> c \<notin> set s"
proof (induction xs arbitrary: s)
  case Nil
  then show ?case by simp
next
  case (Cons x xs)
  obtain t ts where t: "split_on c xs = t # ts"
    using split_on_not_Nil [of c xs] by (cases "split_on c xs") auto
  show ?case
  proof (cases "x = c")
    case True
    with Cons show ?thesis by auto
  next
    case False
    with Cons.prems t have "s = x # t \<or> s \<in> set ts" by simp
    moreover have "c \<notin> set t" using Cons.IH [of t] t by simp
    moreover have "s \<in> set ts \<Longrightarrow> c \<notin> set s" using Cons.IH [of s] t by simp
    ultimately show ?thesis using False by auto
  qed
qed

lemma nosep_split: "nosep (split_on CHR ''/'' p)"
  unfolding nosep_def list_all_iff using split_on_segments by blast

lemma join_with_append:
  "ys \<noteq> [] \<Longrightarrow> join_with sep (xs @ ys) = (if xs = [] then [] else join_with sep xs @ sep) @ join_with sep ys"
proof (induction sep xs rule: join_with.induct)
  case (1 sep)
  then show ?case by simp
next
  case (2 sep x)
  then show ?case by (cases ys) auto
next
  case (3 sep x y ys')
  then show ?case by simp
qed

lemma split_join:
  "xs \<noteq> [] \<Longrightarrow> nosep xs \<Longrightarrow> split_on CHR ''/'' (join_with ''/'' xs) = xs"
proof (induction "''/''" xs rule: join_with.induct)
  case 1
  then show ?case by simp
next
  case (2 x)
  then show ?case by (simp add: split_on_no_sep nosep_Cons)
next
  case (3 x y ys)
  have "split_on CHR ''/'' (x @ CHR ''/'' # join_with ''/'' (y # ys))
        = split_on CHR ''/'' x @ split_on CHR ''/'' (join_with ''/'' (y # ys))"
    by (rule split_on_append)
  with 3 show ?case by (simp add: split_on_no_sep nosep_Cons)
qed

lemma plain_nosep: "list_all plain xs \<Longrightarrow> nosep xs"
  unfolding nosep_def by (induction xs) (simp_all add: plain_def)

text \<open>Segments of a normalised absolute path come back unchanged.\<close>

lemma norm_segments_render:
  assumes "list_all plain segs" and that: "tr = [] \<or> tr = ''/''"
  shows "norm_segments False (split_on CHR ''/'' (''/'' @ join_with ''/'' segs @ tr)) = segs"
proof -
  have e: "norm_step False [] [] = []" by (simp add: norm_step_skip)
  show ?thesis
  proof (cases "segs = []")
    case True
    then show ?thesis using that
      by (auto simp: norm_segments_def norm_step_skip)
  next
    case False
    have sp: "split_on CHR ''/'' (join_with ''/'' segs) = segs"
      using False assms(1) by (simp add: split_join plain_nosep)
    have "split_on CHR ''/'' (''/'' @ join_with ''/'' segs @ tr) = [] # segs @ (if tr = [] then [] else [[]])"
    proof (cases "tr = []")
      case True
      then show ?thesis using sp by simp
    next
      case False
      with that have tr: "tr = ''/''" by simp
      have "split_on CHR ''/'' (join_with ''/'' segs @ CHR ''/'' # []) = segs @ [[]]"
        using sp by (simp only: split_on_append split_on.simps)
      then show ?thesis using tr by simp
    qed
    then show ?thesis using assms(1)
      by (simp add: norm_segments_def norm_step_skip foldl_norm_step_plain)
  qed
qed

lemma foldl_norm_step_kept: "kept st \<Longrightarrow> kept (foldl (norm_step a) st xs)"
  by (induction xs arbitrary: st) (simp_all add: norm_step_kept)

lemma nosep_rev: "nosep (rev xs) = nosep xs"
  unfolding nosep_def by simp

lemma kept_rev: "kept (rev xs) = kept xs"
  unfolding kept_def by simp

lemma nosep_append: "nosep (xs @ ys) = (nosep xs \<and> nosep ys)"
  unfolding nosep_def by simp

lemma isAbsolute_append: "p \<noteq> [] \<Longrightarrow> isAbsolute (p @ q) = isAbsolute p"
  by (cases p) (simp_all add: isAbsolute_def)

lemma not_abs_join:
  assumes "M \<noteq> []" "hd M \<noteq> []" "CHR ''/'' \<notin> set (hd M)"
  shows "\<not> isAbsolute (join_with ''/'' M)"
proof -
  obtain m ms where M: "M = m # ms" using assms(1) by (cases M) auto
  with assms obtain x xs where m: "m = x # xs" "x \<noteq> CHR ''/''" by (cases m) auto
  show ?thesis using M m by (cases ms) (simp_all add: isAbsolute_def)
qed

text \<open>\<open>path.resolve\<close> of a non-empty path, in segments.\<close>

lemma posix_resolve_segments:
  assumes "isAbsolute wd" "p \<noteq> []"
  shows "posix_resolve wd p =
           ''/'' @ join_with ''/''
             (rev (foldl (norm_step False)
                    (if isAbsolute p then [] else foldl (norm_step False) [] (split_on CHR ''/'' wd))
                    (split_on CHR ''/'' p)))"
proof -
  have wd: "wd \<noteq> []" using assms(1) by (auto simp: isAbsolute_def)
  have e: "\<And>st. norm_step False st [] = st" by (simp add: norm_step_skip)
  have sp: "split_on CHR ''/'' (p @ ''/'') = split_on CHR ''/'' p @ [[]]"
    using split_on_append [of "CHR ''/''" p "[]"] by simp
  show ?thesis
  proof (cases "isAbsolute p")
    case True
    then show ?thesis using assms(2) sp
      by (simp add: posix_resolve_def normalizeString_def norm_segments_def e)
  next
    case False
    have "split_on CHR ''/'' (wd @ CHR ''/'' # (p @ ''/''))
          = split_on CHR ''/'' wd @ split_on CHR ''/'' p @ [[]]"
      using split_on_append [of "CHR ''/''" wd "p @ ''/''"] sp by simp
    then show ?thesis using False assms wd
      by (simp add: posix_resolve_def normalizeString_def norm_segments_def e)
  qed
qed

text \<open>\<open>path.join\<close> of a directory and three plain segments.\<close>

lemma posix_join_segments:
  assumes "d \<noteq> []" "plain a" "plain b" "plain c"
  shows "posix_join [d, a, b, c] =
           (if isAbsolute d then ''/'' else []) @
           join_with ''/'' (norm_segments (\<not> isAbsolute d) (split_on CHR ''/'' d) @ [a, b, c])"
proof -
  let ?j = "d @ CHR ''/'' # (a @ CHR ''/'' # (b @ CHR ''/'' # c))"
  have ne: "a \<noteq> []" "b \<noteq> []" "c \<noteq> []" using assms by (simp_all add: plain_def)
  have ns: "CHR ''/'' \<notin> set a" "CHR ''/'' \<notin> set b" "CHR ''/'' \<notin> set c"
    using assms by (simp_all add: plain_def)
  have j: "join_with ''/'' [d, a, b, c] = ?j" by simp
  have sp: "split_on CHR ''/'' ?j = split_on CHR ''/'' d @ [a, b, c]"
    using ns by (simp add: split_on_append split_on_no_sep del: split_on.simps)
  have "last c \<in> set c" using ne(3) by (rule last_in_set)
  then have "last c \<noteq> CHR ''/''" using ns(3) by metis
  then have last: "last ?j \<noteq> CHR ''/''" using ne(3) by (simp add: last_append)
  have abs: "isAbsolute ?j = isAbsolute d" using assms(1) by (rule isAbsolute_append)
  have pl: "list_all plain [a, b, c]" using assms by simp
  have ns': "norm_segments x (split_on CHR ''/'' ?j) = norm_segments x (split_on CHR ''/'' d) @ [a, b, c]" for x
    unfolding sp norm_segments_def foldl_append foldl_norm_step_plain [OF pl] by simp
  have nonempty: "join_with ''/'' (xs @ [a, b, c]) \<noteq> []" for xs
    using ne by (simp add: join_with_append)
  have "posix_join [d, a, b, c] = posix_normalize ?j"
    using assms(1) ne by (simp add: posix_join_def)
  also have "\<dots> = (if isAbsolute d then ''/'' else []) @
           join_with ''/'' (norm_segments (\<not> isAbsolute d) (split_on CHR ''/'' d) @ [a, b, c])"
    unfolding posix_normalize_def Let_def normalizeString_def abs ns'
    using last nonempty by simp
  finally show ?thesis .
qed

lemma resolved_segments_plain: "list_all plain (resolved_segments wd d)"
proof -
  have "list_all plain (foldl (norm_step False) [] (split_on CHR ''/'' wd))"
    by (rule foldl_norm_step_abs_plain) (simp_all add: nosep_split)
  then have "list_all plain (if isAbsolute d then [] else foldl (norm_step False) [] (split_on CHR ''/'' wd))"
    by simp
  then have "list_all plain (foldl (norm_step False)
            (if isAbsolute d then [] else foldl (norm_step False) [] (split_on CHR ''/'' wd))
            (split_on CHR ''/'' d))"
    by (rule foldl_norm_step_abs_plain) (rule nosep_split)
  then show ?thesis unfolding resolved_segments_def by simp
qed

lemma resolve_join:
  assumes wd: "isAbsolute wd" and d: "d \<noteq> []" and a: "plain a" and b: "plain b" and c: "plain c"
  shows "posix_resolve wd (posix_join [d, a, b, c])
         = ''/'' @ join_with ''/'' (resolved_segments wd d @ [a, b, c])"
proof -
  let ?F = "norm_step False"
  let ?p = "posix_join [d, a, b, c]"
  have pl: "list_all plain [a, b, c]" using a b c by simp
  have e: "\<And>st. ?F st [] = st" by (simp add: norm_step_skip)
  show ?thesis
  proof (cases "isAbsolute d")
    case True
    let ?N = "norm_segments False (split_on CHR ''/'' d)"
    let ?M = "?N @ [a, b, c]"
    have p: "?p = ''/'' @ join_with ''/'' ?M"
      using posix_join_segments [OF d a b c] True by simp
    have N: "list_all plain ?N" unfolding norm_segments_def
      using foldl_norm_step_abs_plain [of "[]" "split_on CHR ''/'' d"] by (simp add: nosep_split)
    with pl have M: "list_all plain ?M" by simp
    have sp: "split_on CHR ''/'' ?p = [] # ?M"
      unfolding p using split_join [of ?M] plain_nosep [OF M] by simp
    have abs: "isAbsolute ?p" unfolding p by (simp add: isAbsolute_def)
    have ne: "?p \<noteq> []" unfolding p by simp
    have seg: "resolved_segments wd d = ?N"
      using True by (simp add: resolved_segments_def norm_segments_def)
    show ?thesis
      unfolding posix_resolve_segments [OF wd ne] sp seg using abs M
      by (simp add: e foldl_norm_step_plain del: foldl_append)
  next
    case False
    let ?N = "norm_segments True (split_on CHR ''/'' d)"
    let ?M = "?N @ [a, b, c]"
    let ?W = "foldl ?F [] (split_on CHR ''/'' wd)"
    have p: "?p = join_with ''/'' ?M"
      using posix_join_segments [OF d a b c] False by simp
    have kN: "kept ?N" unfolding norm_segments_def kept_rev
      by (rule foldl_norm_step_kept) (rule kept_Nil)
    have nN: "nosep ?N" unfolding norm_segments_def nosep_rev
      by (rule foldl_norm_step_nosep) (simp_all add: nosep_Nil nosep_split)
    have nM: "nosep ?M" using nN plain_nosep [OF pl] by (simp add: nosep_append)
    have kM: "kept ?M" using kN a b c by (simp add: kept_def plain_def)
    have hd: "hd ?M \<in> set ?M" by (rule hd_in_set) simp
    have hd1: "hd ?M \<noteq> []" using kM hd unfolding kept_def list_all_iff by blast
    have hd2: "CHR ''/'' \<notin> set (hd ?M)" using nM hd unfolding nosep_def list_all_iff by blast
    have nabs: "\<not> isAbsolute ?p" unfolding p by (rule not_abs_join [OF _ hd1 hd2]) simp
    have sp: "split_on CHR ''/'' ?p = ?M"
      unfolding p using split_join [of ?M] nM by simp
    have ne: "?p \<noteq> []" using sp by auto
    have "foldl ?F ?W ?M = foldl ?F (foldl ?F ?W ?N) [a, b, c]" by simp
    also have "\<dots> = rev [a, b, c] @ foldl ?F ?W ?N" using pl by (rule foldl_norm_step_plain)
    also have "foldl ?F ?W ?N = foldl ?F ?W (split_on CHR ''/'' d)" by (rule norm_segments_rel_abs)
    finally have fm: "foldl ?F ?W ?M = rev [a, b, c] @ foldl ?F ?W (split_on CHR ''/'' d)" .
    have seg: "resolved_segments wd d = rev (foldl ?F ?W (split_on CHR ''/'' d))"
      using False by (simp add: resolved_segments_def)
    have "posix_resolve wd ?p = ''/'' @ join_with ''/'' (rev (foldl ?F ?W (split_on CHR ''/'' ?p)))"
      using posix_resolve_segments [OF wd ne] by (simp only: nabs if_False)
    then show ?thesis unfolding sp fm seg by simp
  qed
qed

lemma resolve_dir:
  assumes "isAbsolute wd" "d \<noteq> []"
  shows "posix_resolve wd d = ''/'' @ join_with ''/'' (resolved_segments wd d)"
  using posix_resolve_segments [OF assms] by (simp add: resolved_segments_def)

section \<open>Properties of job creation\<close>

lemma toLowerCase_char_not_slash:
  assumes "c \<noteq> CHR ''/''"
  shows "(let n = (of_char c :: nat) in if 65 \<le> n \<and> n \<le> 90 then char_of (n + 32) else c) \<noteq> CHR ''/''"
proof -
  let ?n = "of_char c :: nat"
  show ?thesis
  proof (cases "65 \<le> ?n \<and> ?n \<le> 90")
    case False
    then show ?thesis using assms by (auto simp: Let_def)
  next
    case True
    have "of_char (char_of (?n + 32) :: char) = (?n + 32) mod 256" by simp
    also have "\<dots> = ?n + 32" using True by simp
    finally have "of_char (char_of (?n + 32) :: char) \<noteq> (47 :: nat)" using True by simp
    moreover have "of_char CHR ''/'' = (47 :: nat)" by simp
    ultimately have "char_of (?n + 32) \<noteq> CHR ''/''" by metis
    then show ?thesis using True by (simp add: Let_def)
  qed
qed

lemma sanitize_no_slash: "CHR ''/'' \<notin> set (sanitizePluginName nm)"
proof -
  have "\<And>xs. CHR ''/'' \<notin> set (toLowerCase (map (\<lambda>c. if c = CHR ''/'' then CHR ''-'' else c) xs))"
  proof -
    fix xs :: string
    show "CHR ''/'' \<notin> set (toLowerCase (map (\<lambda>c. if c = CHR ''/'' then CHR ''-'' else c) xs))"
      unfolding toLowerCase_def
    proof (induction xs)
      case Nil
      show ?case by simp
    next
      case (Cons x xs)
      have "(if x = CHR ''/'' then CHR ''-'' else x) \<noteq> CHR ''/''" by simp
      from toLowerCase_char_not_slash [OF this] Cons show ?case by simp
    qed
  qed
  then show ?thesis unfolding sanitizePluginName_def by blast
qed

lemma sanitize_has_dash_aux:
  assumes "CHR ''/'' \<in> set xs"
  shows "CHR ''-'' \<in> set (toLowerCase (map (\<lambda>c. if c = CHR ''/'' then CHR ''-'' else c) xs))"
proof -
  let ?g = "\<lambda>c. let n = (of_char c :: nat) in if 65 \<le> n \<and> n \<le> 90 then char_of (n + 32) else c"
  let ?f = "\<lambda>c. if c = CHR ''/'' then CHR ''-'' else c"
  have "?g (?f CHR ''/'') = CHR ''-''" by simp
  moreover have "?g (?f CHR ''/'') \<in> (\<lambda>c. ?g (?f c)) ` set xs" using assms by (rule imageI)
  ultimately have "CHR ''-'' \<in> (\<lambda>c. ?g (?f c)) ` set xs" by simp
  then show ?thesis unfolding toLowerCase_def by (simp add: image_image)
qed

lemma sanitize_has_dash:
  assumes "CHR ''/'' \<in> set (case nm of [] \<Rightarrow> [] | c # cs \<Rightarrow> if c = CHR ''@'' then cs else nm)"
  shows "CHR ''-'' \<in> set (sanitizePluginName nm)"
  unfolding sanitizePluginName_def using assms by (rule sanitize_has_dash_aux)

lemma validNameRegex_has_slash:
  assumes "validNameRegex nm"
  shows "CHR ''/'' \<in> set (case nm of [] \<Rightarrow> [] | c # cs \<Rightarrow> if c = CHR ''@'' then cs else nm)"
proof -
  let ?r = "case nm of [] \<Rightarrow> [] | c # cs \<Rightarrow> if c = CHR ''@'' then cs else nm"
  from assms obtain rest where "dropWhile name_char ?r = CHR ''/'' # rest"
    unfolding validNameRegex_def Let_def by (auto split: list.splits)
  then have "CHR ''/'' \<in> set (dropWhile name_char ?r)" by simp
  then show ?thesis by (rule set_dropWhileD)
qed

lemma sanitize_plain:
  assumes "isValidPluginName nm"
  shows "plain (sanitizePluginName nm)"
proof -
  have "validNameRegex nm" using assms by (simp add: isValidPluginName_def)
  then have d: "CHR ''-'' \<in> set (sanitizePluginName nm)"
    by (intro sanitize_has_dash validNameRegex_has_slash)
  have "sanitizePluginName nm \<noteq> []" using d by auto
  moreover have "sanitizePluginName nm \<noteq> ''.''" using d by auto
  moreover have "sanitizePluginName nm \<noteq> ''..''" using d by auto
  ultimately show ?thesis using sanitize_no_slash by (simp add: plain_def)
qed

lemma uuid_plain:
  assumes "is_uuid s"
  shows "plain s"
proof -
  from assms have len: "length s = 36"
    and all: "\<forall>i<36. (if i \<in> {8, 13, 18, 23} then s ! i = CHR ''-'' else hex_digit (s ! i))"
    unfolding is_uuid_def list_all_iff by auto
  have "c \<noteq> CHR ''/''" if "c \<in> set s" for c
  proof -
    from that obtain i where i: "i < 36" "s ! i = c" using len by (metis in_set_conv_nth)
    with all have "c = CHR ''-'' \<or> hex_digit c" by metis
    then show ?thesis by (auto simp: hex_digit_def)
  qed
  then have "CHR ''/'' \<notin> set s" by blast
  moreover have "s \<noteq> []" "s \<noteq> ''.''" "s \<noteq> ''..''" using len by auto
  ultimately show ?thesis by (simp add: plain_def)
qed

lemma plain_plugins: "plain ''plugins''"
  by (simp add: plain_def)

lemma posix_normalize_nonempty: "posix_normalize p \<noteq> []"
  unfolding posix_normalize_def Let_def by simp

lemma getDataDir_nonempty: "getDataDir svc \<noteq> []"
  unfolding getDataDir_def posix_join_def Let_def
  by (simp add: posix_normalize_nonempty split: option.splits)


lemma map_of_update_same: "map_of (AList.update k v al) k = Some v"
  by (simp add: update_conv')

lemma descendant_render:
  assumes "list_all plain segs" "list_all plain ys" "ys \<noteq> []"
  shows "descendant (''/'' @ join_with ''/'' segs) (''/'' @ join_with ''/'' (segs @ ys))"
proof -
  have 1: "norm_segments False (split_on CHR ''/'' (''/'' @ join_with ''/'' segs)) = segs"
    using norm_segments_render [OF assms(1), of "[]"] by simp
  have "list_all plain (segs @ ys)" using assms by simp
  from norm_segments_render [OF this, of "[]"]
  have 2: "norm_segments False (split_on CHR ''/'' (''/'' @ join_with ''/'' (segs @ ys))) = segs @ ys"
    by simp
  show ?thesis unfolding descendant_def 1 2 using assms(3)
    by (simp add: isAbsolute_def strict_prefix_def)
qed

lemma startsWith_render:
  assumes "ys \<noteq> []"
  shows "startsWith (''/'' @ join_with ''/'' (segs @ ys)) (''/'' @ join_with ''/'' segs)"
  unfolding startsWith_def join_with_append [OF assms] by simp

lemma output_path_sandboxed:
  assumes "isAbsolute wd" "d \<noteq> []" "is_uuid jobId" "isValidPluginName nm"
  shows "startsWith (posix_resolve wd (posix_join [d, ''plugins'', jobId, sanitizePluginName nm]))
           (posix_resolve wd d)"
    and "descendant (posix_resolve wd d)
           (posix_resolve wd (posix_join [d, ''plugins'', jobId, sanitizePluginName nm]))"
proof -
  let ?ys = "[''plugins'', jobId, sanitizePluginName nm]"
  have pl: "plain ''plugins''" "plain jobId" "plain (sanitizePluginName nm)"
    using assms by (simp_all add: plain_plugins uuid_plain sanitize_plain)
  have r: "posix_resolve wd (posix_join [d, ''plugins'', jobId, sanitizePluginName nm])
           = ''/'' @ join_with ''/'' (resolved_segments wd d @ ?ys)"
    using assms(1,2) pl by (rule resolve_join)
  have b: "posix_resolve wd d = ''/'' @ join_with ''/'' (resolved_segments wd d)"
    using assms(1,2) by (rule resolve_dir)
  show "startsWith (posix_resolve wd (posix_join [d, ''plugins'', jobId, sanitizePluginName nm]))
           (posix_resolve wd d)"
    unfolding r b by (rule startsWith_render) simp
  show "descendant (posix_resolve wd d)
           (posix_resolve wd (posix_join [d, ''plugins'', jobId, sanitizePluginName nm]))"
    unfolding r b using resolved_segments_plain pl by (intro descendant_render) simp_all
qed

lemma createPlugin_admitted:
  assumes wd: "isAbsolute (cwd svc)" and uid: "is_uuid jobId" and valid: "isValidPluginName nm"
    and fresh: "nm \<notin> createdPlugins svc"
    and rate: "now - lastJobCreation svc > oneHour \<or> jobCreationCount svc < 10"
    and cap: "length (jobs svc) < 10"
  shows "createPlugin now jobId nm apiKey model svc =
     (Inr jobId,
      svc\<lparr>jobs := AList.update jobId
               (new_job now jobId nm
                  (posix_resolve (cwd svc)
                     (posix_join [getDataDir svc, ''plugins'', jobId, sanitizePluginName nm]))
                  (case model of None \<Rightarrow> selectedModel svc
                   | Some m \<Rightarrow> if m \<noteq> [] then m else selectedModel svc))
               (jobs svc),
          anthropic := (anthropic svc \<or> truthy apiKey),
          createdPlugins := insert nm (createdPlugins svc),
          lastJobCreation := now,
          jobCreationCount :=
            (if now - lastJobCreation svc > oneHour then 0 else jobCreationCount svc) + 1\<rparr>)"
proof -
  have sw: "startsWith
     (posix_resolve (cwd svc)
        (posix_join [getDataDir svc, ''plugins'', jobId, sanitizePluginName nm]))
     (posix_resolve (cwd svc) (getDataDir svc))"
    using wd getDataDir_nonempty uid valid by (rule output_path_sandboxed(1))
  have gd: "\<And>a b c. getDataDir (svc\<lparr>lastJobCreation := a, jobCreationCount := b, anthropic := c\<rparr>) = getDataDir svc"
    "\<And>a b. getDataDir (svc\<lparr>lastJobCreation := a, jobCreationCount := b\<rparr>) = getDataDir svc"
    by (simp_all add: getDataDir_def split: option.splits)
  show ?thesis
    using valid fresh rate cap sw
    by (cases "truthy apiKey")
       (auto simp: createPlugin_def checkRateLimit_def Let_def gd new_job_def
             split: option.splits)
qed

lemma createPlugin_keeps_names_valid:
  assumes "\<forall>n\<in>createdPlugins svc. isValidPluginName n"
  shows "\<forall>n\<in>createdPlugins (snd (createPlugin now jobId nm apiKey model svc)). isValidPluginName n"
  using assms
  by (auto simp: createPlugin_def checkRateLimit_def Let_def split: if_splits)

lemma new_service_names_valid: "\<forall>n\<in>createdPlugins (new_service d wd). isValidPluginName n"
  by (simp add: new_service_def)

section \<open>Cancellation\<close>

text \<open>
  C8. Cancelling a tracked job whose status is completed, failed or cancelled changes
  nothing (the whole service state is the same, so its status, \<open>completedAt\<close> and logs
  are); cancelling a tracked job that is pending or running sets its status to
  cancelled, stamps \<open>completedAt\<close> with the clock reading and appends one log entry.
\<close>

theorem cancelJob_idempotent_on_terminal:
  assumes "map_of (jobs svc) jobId = Some j"
  shows "(terminal (status j) \<longrightarrow> cancelJob now jobId svc = svc) \<and>
         (status j = Pending \<or> status j = Running \<longrightarrow>
            (\<exists>j'. map_of (jobs (cancelJob now jobId svc)) jobId = Some j' \<and>
                  status j' = Cancelled \<and> completedAt j' = Some now \<and>
                  logs j' = logs j @ [(now, ''Job cancelled by user'')]))"
proof (intro conjI impI)
  assume "terminal (status j)"
  then have "\<not> (status j = Pending \<or> status j = Running)"
    by (auto simp: terminal_def)
  then show "cancelJob now jobId svc = svc"
    using assms by (simp add: cancelJob_def)
next
  assume act: "status j = Pending \<or> status j = Running"
  let ?j1 = "j\<lparr>status := Cancelled, completedAt := Some now\<rparr>"
  let ?j2 = "log_line now ''Job cancelled by user'' ?j1"
  have "map_of (jobs (cancelJob now jobId svc)) jobId = Some (kill_child ?j2)"
    using assms act
    by (simp add: cancelJob_def logToJob_def Let_def map_of_update_same)
  moreover have "status (kill_child ?j2) = Cancelled"
    "completedAt (kill_child ?j2) = Some now"
    "logs (kill_child ?j2) = logs j @ [(now, ''Job cancelled by user'')]"
    by (simp_all add: kill_child_def log_line_def split: option.splits)
  ultimately show "\<exists>j'. map_of (jobs (cancelJob now jobId svc)) jobId = Some j' \<and>
                  status j' = Cancelled \<and> completedAt j' = Some now \<and>
                  logs j' = logs j @ [(now, ''Job cancelled by user'')]"
    by blast
qed

theorem cancelJob_idempotent_on_terminal_witness:
  "cancelJob 9000 uuid0 (demo_service [demo_job uuid0 Failed (Some 4000)])
     = demo_service [demo_job uuid0 Failed (Some 4000)] \<and>
   (\<exists>j'. map_of (jobs (cancelJob 9000 uuid0 (demo_service [demo_job uuid0 Running None]))) uuid0
            = Some j' \<and>
         status j' = Cancelled \<and> completedAt j' = Some 9000 \<and>
         logs j' = [(9000, ''Job cancelled by user'')])"
proof -
  have t: "map_of (jobs (demo_service [demo_job uuid0 Failed (Some 4000)])) uuid0
           = Some (demo_job uuid0 Failed (Some 4000))"
    by (simp add: demo_service_def demo_job_def new_job_def)
  have r: "map_of (jobs (demo_service [demo_job uuid0 Running None])) uuid0
           = Some (demo_job uuid0 Running None)"
    by (simp add: demo_service_def demo_job_def new_job_def)
  have st: "terminal (status (demo_job uuid0 Failed (Some 4000)))"
    "status (demo_job uuid0 Running None) = Running"
    "logs (demo_job uuid0 Running None) = []"
    by (simp_all add: demo_job_def new_job_def terminal_def)
  from cancelJob_idempotent_on_terminal [OF t, of 9000]
       cancelJob_idempotent_on_terminal [OF r, of 9000] st
  show ?thesis by simp
qed

section \<open>Admission\<close>

text \<open>
  C10. A request that passes the duplicate, name and rate-limit checks and is then
  refused because ten or more jobs are tracked leaves the rate-limit counter
  incremented (and the time of the last creation set to now): the call throws the
  capacity error, creates no job and registers no name, and the service is otherwise
  unchanged, so the refused request has used one of the ten creations of the hour.
\<close>

theorem capacity_rejection_consumes_rate_limit:
  assumes "nm \<notin> createdPlugins svc" "isValidPluginName nm"
    and "now - lastJobCreation svc > oneHour \<or> jobCreationCount svc < 10"
    and "length (jobs svc) \<ge> 10"
  shows "createPlugin now jobId nm apiKey model svc =
           (Inl CapacityExceeded,
            svc\<lparr>lastJobCreation := now,
                jobCreationCount :=
                  (if now - lastJobCreation svc > oneHour then 0 else jobCreationCount svc) + 1\<rparr>)"
  using assms by (auto simp: createPlugin_def checkRateLimit_def)

theorem capacity_rejection_consumes_rate_limit_witness:
  "createPlugin 5000000 uuid0 ''@acme/plugin-demo'' None None
     (demo_service (map (\<lambda>c. demo_job [c] Pending None) ''0123456789''))
   = (Inl CapacityExceeded,
      (demo_service (map (\<lambda>c. demo_job [c] Pending None) ''0123456789''))
        \<lparr>lastJobCreation := 5000000, jobCreationCount := 1\<rparr>)"
proof -
  let ?svc = "demo_service (map (\<lambda>c. demo_job [c] Pending None) ''0123456789'')"
  have v: "isValidPluginName ''@acme/plugin-demo''" by code_simp
  have f: "''@acme/plugin-demo'' \<notin> createdPlugins ?svc"
    by (simp add: demo_service_def svc0_def new_service_def)
  have r: "5000000 - lastJobCreation ?svc > oneHour \<or> jobCreationCount ?svc < 10"
    by (simp add: demo_service_def svc0_def new_service_def oneHour_def)
  have c: "length (jobs ?svc) \<ge> 10" by (simp add: demo_service_def)
  from capacity_rejection_consumes_rate_limit [OF f v r c, of uuid0 None None] r
  show ?thesis by (simp add: demo_service_def svc0_def new_service_def oneHour_def)
qed

text \<open>
  C4. In a service whose registry holds valid names only (every reachable state: see
  \<open>new_service_names_valid\<close> and \<open>createPlugin_keeps_names_valid\<close>), a request whose name
  contains \<^verbatim>\<open>..\<close>, \<^verbatim>\<open>./\<close> or a backslash, or does not match the scope/name pattern, throws
  the invalid-name error and leaves the service as it was: no job, no name registered,
  no pipeline started (so no directory made). And the output path of every job that a
  call creates lies strictly below the resolved data directory.
\<close>

theorem createPlugin_rejects_unsafe_names_and_sandboxes_output:
  assumes wd: "isAbsolute (cwd svc)" and uid: "is_uuid jobId"
    and inv: "\<forall>n\<in>createdPlugins svc. isValidPluginName n"
  shows "(string_includes nm ''..'' \<or> string_includes nm ''./'' \<or> string_includes nm [backslash]
            \<or> \<not> validNameRegex nm
          \<longrightarrow> createPlugin now jobId nm apiKey model svc = (Inl InvalidName, svc)) \<and>
         (\<forall>jid svc'. createPlugin now jobId nm apiKey model svc = (Inr jid, svc')
          \<longrightarrow> (\<exists>j. map_of (jobs svc') jid = Some j \<and>
                   descendant (posix_resolve (cwd svc) (getDataDir svc)) (outputPath j)))"
proof (intro conjI impI allI)
  assume "string_includes nm ''..'' \<or> string_includes nm ''./'' \<or> string_includes nm [backslash]
            \<or> \<not> validNameRegex nm"
  then have bad: "\<not> isValidPluginName nm" by (auto simp: isValidPluginName_def)
  with inv have "nm \<notin> createdPlugins svc" by blast
  with bad show "createPlugin now jobId nm apiKey model svc = (Inl InvalidName, svc)"
    by (simp add: createPlugin_def)
next
  fix jid svc'
  assume ok: "createPlugin now jobId nm apiKey model svc = (Inr jid, svc')"
  have fresh: "nm \<notin> createdPlugins svc"
    using ok by (auto simp: createPlugin_def)
  have valid: "isValidPluginName nm"
    using ok fresh by (auto simp: createPlugin_def split: if_splits)
  have rate: "now - lastJobCreation svc > oneHour \<or> jobCreationCount svc < 10"
    using ok fresh valid
    by (auto simp: createPlugin_def checkRateLimit_def split: if_splits)
  have cap: "length (jobs svc) < 10"
    using ok fresh valid rate
    by (auto simp: createPlugin_def checkRateLimit_def split: if_splits)
  let ?path = "posix_resolve (cwd svc)
                 (posix_join [getDataDir svc, ''plugins'', jobId, sanitizePluginName nm])"
  from createPlugin_admitted [OF wd uid valid fresh rate cap, of apiKey model] ok
  obtain mdl where jid: "jid = jobId"
    and svc': "map_of (jobs svc') jobId = Some (new_job now jobId nm ?path mdl)"
    by (auto simp: map_of_update_same)
  have "descendant (posix_resolve (cwd svc) (getDataDir svc)) ?path"
    using wd getDataDir_nonempty uid valid by (rule output_path_sandboxed(2))
  then show "\<exists>j. map_of (jobs svc') jid = Some j \<and>
                   descendant (posix_resolve (cwd svc) (getDataDir svc)) (outputPath j)"
    using jid svc' by (simp add: new_job_def)
qed

lemma uuid0_ok: "is_uuid uuid0"
  by code_simp

theorem createPlugin_rejects_unsafe_names_and_sandboxes_output_witness:
  "createPlugin 5000000 uuid0 ''../../../etc/passwd'' None None svc0 = (Inl InvalidName, svc0) \<and>
   (\<exists>j. map_of (jobs (snd (createPlugin 5000000 uuid0 ''@acme/plugin-demo'' None None svc0))) uuid0
           = Some j \<and>
        descendant ''/var/data'' (outputPath j))"
proof -
  have wd: "isAbsolute (cwd svc0)" by code_simp
  have inv: "\<forall>n\<in>createdPlugins svc0. isValidPluginName n"
    by (simp add: svc0_def new_service_def)
  have bad: "string_includes ''../../../etc/passwd'' ''..''" by code_simp
  have ok: "fst (createPlugin 5000000 uuid0 ''@acme/plugin-demo'' None None svc0) = Inr uuid0"
    by code_simp
  have base: "posix_resolve (cwd svc0) (getDataDir svc0) = ''/var/data''" by code_simp
  note main = createPlugin_rejects_unsafe_names_and_sandboxes_output [OF wd uuid0_ok inv]
  have 1: "createPlugin 5000000 uuid0 ''../../../etc/passwd'' None None svc0 = (Inl InvalidName, svc0)"
    using main [of "''../../../etc/passwd''" 5000000 None None] bad by blast
  have 2: "\<exists>j. map_of (jobs (snd (createPlugin 5000000 uuid0 ''@acme/plugin-demo'' None None svc0))) uuid0
           = Some j \<and> descendant ''/var/data'' (outputPath j)"
    using main [of "''@acme/plugin-demo''" 5000000 None None] ok base
    by (metis prod.collapse)
  from 1 2 show ?thesis by blast
qed

section \<open>The rate limit over a sequence of requests\<close>

lemma createPlugin_created_counters:
  assumes "createPlugin now jobId nm apiKey model svc = (res, svc')" "created res"
  shows "lastJobCreation svc' = now"
    and "jobCreationCount svc' =
           (if now - lastJobCreation svc > oneHour then 0 else jobCreationCount svc) + 1"
  using assms
  by (auto simp: createPlugin_def checkRateLimit_def Let_def created_def split: if_splits)

lemma createAll_counters:
  "createAll rs svc = (results, svc') \<Longrightarrow> list_all created results
   \<Longrightarrow> \<forall>b\<in>set rs. r_at b - lastJobCreation svc \<le> oneHour
   \<Longrightarrow> \<forall>a\<in>set rs. \<forall>b\<in>set rs. r_at b - r_at a \<le> oneHour
   \<Longrightarrow> jobCreationCount svc' = jobCreationCount svc + length rs \<and>
       lastJobCreation svc' = (if rs = [] then lastJobCreation svc else r_at (last rs))"
proof (induction rs arbitrary: svc results)
  case Nil
  then show ?case by simp
next
  case (Cons r rs)
  obtain res svc1 where c1: "createPlugin (r_at r) (r_uuid r) (r_name r) (r_apiKey r) (r_model r) svc = (res, svc1)"
    by (cases "createPlugin (r_at r) (r_uuid r) (r_name r) (r_apiKey r) (r_model r) svc")
  obtain ress svc2 where c2: "createAll rs svc1 = (ress, svc2)"
    by (cases "createAll rs svc1")
  from Cons.prems(1) c1 c2 have eq: "results = res # ress" "svc' = svc2" by simp_all
  with Cons.prems(2) have ok: "created res" "list_all created ress" by simp_all
  have c2': "createAll rs svc1 = (ress, svc')" using c2 eq by simp
  have noreset: "\<not> r_at r - lastJobCreation svc > oneHour" using Cons.prems(3) by simp
  from createPlugin_created_counters [OF c1 ok(1)] noreset
  have l1: "lastJobCreation svc1 = r_at r" and n1: "jobCreationCount svc1 = jobCreationCount svc + 1"
    by simp_all
  have g1: "\<forall>b\<in>set rs. r_at b - lastJobCreation svc1 \<le> oneHour"
    using Cons.prems(4) l1 by simp
  have g2: "\<forall>a\<in>set rs. \<forall>b\<in>set rs. r_at b - r_at a \<le> oneHour"
    using Cons.prems(4) by simp
  from Cons.IH [OF c2' ok(2) g1 g2] l1 n1 show ?case by simp
qed

lemma createAll_window_fills_budget:
  assumes run: "createAll reqs svc = (results, svc1)" and ten: "length reqs = 10"
    and ok: "list_all created results"
    and window: "\<forall>a\<in>set reqs. \<forall>b\<in>set reqs. r_at b - r_at a \<le> oneHour"
  shows "jobCreationCount svc1 \<ge> 10 \<and> lastJobCreation svc1 = r_at (last reqs)"
proof -
  from ten obtain r rs where reqs: "reqs = r # rs" and len: "length rs = 9"
    by (cases reqs) auto
  obtain res svc0 where c1: "createPlugin (r_at r) (r_uuid r) (r_name r) (r_apiKey r) (r_model r) svc = (res, svc0)"
    by (cases "createPlugin (r_at r) (r_uuid r) (r_name r) (r_apiKey r) (r_model r) svc")
  obtain ress svc2 where c2: "createAll rs svc0 = (ress, svc2)"
    by (cases "createAll rs svc0")
  from run reqs c1 c2 have eq: "results = res # ress" "svc1 = svc2" by simp_all
  with ok have oks: "created res" "list_all created ress" by simp_all
  from createPlugin_created_counters [OF c1 oks(1)]
  have l1: "lastJobCreation svc0 = r_at r" and n1: "jobCreationCount svc0 \<ge> 1"
    by simp_all
  have g1: "\<forall>b\<in>set rs. r_at b - lastJobCreation svc0 \<le> oneHour"
    using window reqs l1 by simp
  have g2: "\<forall>a\<in>set rs. \<forall>b\<in>set rs. r_at b - r_at a \<le> oneHour"
    using window reqs by simp
  from createAll_counters [OF c2 oks(2) g1 g2] len n1 eq reqs
  show ?thesis by auto
qed

lemma capacity_rejection_full:
  assumes "nm \<notin> createdPlugins svc" "isValidPluginName nm"
    and "now - lastJobCreation svc > oneHour \<or> jobCreationCount svc < 10"
    and "length (jobs svc) \<ge> 10"
  shows "fst (createPlugin now jobId nm apiKey model svc) = Inl CapacityExceeded"
  using assms by (auto simp: createPlugin_def checkRateLimit_def)

lemma createPlugin_rate_limited:
  assumes "nm \<notin> createdPlugins svc" "isValidPluginName nm"
    and "jobCreationCount svc \<ge> 10" "now - lastJobCreation svc \<le> oneHour"
  shows "createPlugin now jobId nm apiKey model svc = (Inl RateLimited, svc)"
  using assms by (simp add: createPlugin_def checkRateLimit_def)

text \<open>
  C7, as stated, fails. Ten requests are served and create ten jobs at one instant; the
  eleventh request at that instant is refused by the rate limit; the same request
  one hour and one millisecond later passes the rate limit and is refused all the
  same, by the capacity check, since the ten jobs are still tracked.
\<close>

theorem rate_limit_counterexample:
  "(case createAll ten_requests svc0 of
      (results, svc1) \<Rightarrow>
        list_all created results \<and>
        fst (createPlugin 5000000 uuid11 ''@acme/plugin-a'' None None svc1) = Inl RateLimited \<and>
        5000000 + oneHour + 1 - lastJobCreation svc1 > oneHour \<and>
        fst (createPlugin (5000000 + oneHour + 1) uuid11 ''@acme/plugin-a'' None None svc1)
          = Inl CapacityExceeded)"
  by code_simp

text \<open>
  C7, amended. After ten requests that created jobs within one hour of each other,
  a further request (fresh valid name) made no more than an hour after the last of
  them throws the rate-limit error and leaves the service as it was. Made more than
  an hour after the last of them it is no longer rate limited, whatever the job map
  \<open>js\<close> holds by then: it creates its job exactly when fewer than ten jobs are
  tracked, and throws the capacity error otherwise.
\<close>

theorem rate_limit_window_and_reset:
  assumes run: "createAll reqs svc = (results, svc1)" and ten: "length reqs = 10"
    and ok: "list_all created results"
    and window: "\<forall>a\<in>set reqs. \<forall>b\<in>set reqs. r_at b - r_at a \<le> oneHour"
    and wd: "isAbsolute (cwd svc1)" and uid: "is_uuid jobId"
    and valid: "isValidPluginName nm" and fresh: "nm \<notin> createdPlugins svc1"
  shows "(now - r_at (last reqs) \<le> oneHour
          \<longrightarrow> createPlugin now jobId nm apiKey model svc1 = (Inl RateLimited, svc1)) \<and>
         (now - r_at (last reqs) > oneHour
          \<longrightarrow> (\<forall>js. fst (createPlugin now jobId nm apiKey model (svc1\<lparr>jobs := js\<rparr>))
                      = (if length js \<ge> 10 then Inl CapacityExceeded else Inr jobId)))"
proof (intro conjI impI allI)
  from createAll_window_fills_budget [OF run ten ok window]
  have full: "jobCreationCount svc1 \<ge> 10" and lst: "lastJobCreation svc1 = r_at (last reqs)"
    by simp_all
  {
    assume "now - r_at (last reqs) \<le> oneHour"
    with lst have "now - lastJobCreation svc1 \<le> oneHour" by simp
    with fresh valid full
    show "createPlugin now jobId nm apiKey model svc1 = (Inl RateLimited, svc1)"
      by (rule createPlugin_rate_limited)
  }
  fix js
  assume "now - r_at (last reqs) > oneHour"
  with lst have late: "now - lastJobCreation (svc1\<lparr>jobs := js\<rparr>) > oneHour" by simp
  have fresh': "nm \<notin> createdPlugins (svc1\<lparr>jobs := js\<rparr>)" using fresh by simp
  have wd': "isAbsolute (cwd (svc1\<lparr>jobs := js\<rparr>))" using wd by simp
  show "fst (createPlugin now jobId nm apiKey model (svc1\<lparr>jobs := js\<rparr>))
          = (if length js \<ge> 10 then Inl CapacityExceeded else Inr jobId)"
  proof (cases "length js \<ge> 10")
    case True
    then have "length (jobs (svc1\<lparr>jobs := js\<rparr>)) \<ge> 10" by simp
    from capacity_rejection_full [OF fresh' valid _ this, of now jobId apiKey model] late True
    show ?thesis by simp
  next
    case False
    then have "length (jobs (svc1\<lparr>jobs := js\<rparr>)) < 10" by simp
    from createPlugin_admitted [OF wd' uid valid fresh' _ this, of now apiKey model] late False
    show ?thesis by simp
  qed
qed

theorem rate_limit_window_and_reset_witness:
  "createPlugin 5000000 uuid11 ''@acme/plugin-a'' None None (snd (createAll ten_requests svc0))
     = (Inl RateLimited, snd (createAll ten_requests svc0)) \<and>
   fst (createPlugin 8600001 uuid11 ''@acme/plugin-a'' None None
          ((snd (createAll ten_requests svc0))\<lparr>jobs := []\<rparr>)) = Inr uuid11"
proof -
  have run: "createAll ten_requests svc0
             = (fst (createAll ten_requests svc0), snd (createAll ten_requests svc0))"
    by simp
  have e: "case createAll ten_requests svc0 of
             (rs, s) \<Rightarrow> list_all created rs \<and> ''@acme/plugin-a'' \<notin> createdPlugins s
                        \<and> isAbsolute (cwd s)"
    by code_simp
  then have ok: "list_all created (fst (createAll ten_requests svc0))"
    and fresh: "''@acme/plugin-a'' \<notin> createdPlugins (snd (createAll ten_requests svc0))"
    and wd: "isAbsolute (cwd (snd (createAll ten_requests svc0)))"
    by (simp_all add: case_prod_beta)
  have ten: "length ten_requests = 10" by (simp add: ten_requests_def)
  have window: "\<forall>a\<in>set ten_requests. \<forall>b\<in>set ten_requests. r_at b - r_at a \<le> oneHour"
    by (simp add: ten_requests_def oneHour_def)
  have uid: "is_uuid uuid11" by code_simp
  have valid: "isValidPluginName ''@acme/plugin-a''" by code_simp
  have lst: "r_at (last ten_requests) = 5000000" by (simp add: ten_requests_def)
  note main = rate_limit_window_and_reset [OF run ten ok window wd uid valid fresh]
  from main [of 5000000 None None] main [of 8600001 None None] lst
  show ?thesis by (simp add: oneHour_def)
qed

section \<open>Properties of the harness\<close>

lemma marker_sub: "sublist ''Output truncated'' truncation_marker"
  unfolding truncation_marker_def by code_simp


lemma sublist_append_left: "sublist p m \<Longrightarrow> sublist p (x @ m)"
  by (auto simp: sublist_def) (metis append.assoc)

lemma marker_includes: "string_includes (x @ truncation_marker) ''Output truncated''"
  unfolding string_includes_def using marker_sub by (rule sublist_append_left)

lemma handleData_over_cap:
  assumes "h_outputSize h \<ge> maxOutputSize"
  shows "h_outputSize (foldl (handleData now) h ds) \<ge> maxOutputSize \<and>
         h_output (foldl (handleData now) h ds) =
           h_output h @ (if ds \<noteq> [] \<and> \<not> string_includes (h_output h) ''Output truncated''
                         then truncation_marker else []) \<and>
         logs (h_job (foldl (handleData now) h ds)) =
           logs (h_job h) @ (if ds \<noteq> [] \<and> \<not> string_includes (h_output h) ''Output truncated''
                         then [(now, ''Output truncated due to size limit'')] else [])"
  using assms
proof (induction ds arbitrary: h)
  case Nil
  then show ?case by simp
next
  case (Cons d ds)
  let ?h1 = "handleData now h d"
  have big: "h_outputSize ?h1 \<ge> maxOutputSize"
    using Cons.prems by (simp add: handleData_def Let_def)
  show ?case
  proof (cases "string_includes (h_output h) ''Output truncated''")
    case True
    have o: "h_output ?h1 = h_output h" "logs (h_job ?h1) = logs (h_job h)"
      using Cons.prems True by (simp_all add: handleData_def Let_def)
    from Cons.IH [OF big] o True show ?thesis by simp
  next
    case False
    have o: "h_output ?h1 = h_output h @ truncation_marker"
      "logs (h_job ?h1) = logs (h_job h) @ [(now, ''Output truncated due to size limit'')]"
      using Cons.prems False by (simp_all add: handleData_def Let_def log_line_def)
    have inc: "string_includes (h_output ?h1) ''Output truncated''"
      unfolding o by (rule marker_includes)
    from Cons.IH [OF big] o inc False show ?thesis by simp
  qed
qed


lemma handleData_under_cap:
  assumes "h_outputSize h < maxOutputSize"
  shows "h_output (foldl (handleData now) h ds) =
           h_output h @ accepted (h_outputSize h) ds @
           (if h_outputSize h + sum_list (map byte_length ds) \<ge> maxOutputSize
               \<and> \<not> string_includes (h_output h @ accepted (h_outputSize h) ds) ''Output truncated''
            then truncation_marker else []) \<and>
         logs (h_job (foldl (handleData now) h ds)) =
           logs (h_job h) @
           (if h_outputSize h + sum_list (map byte_length ds) \<ge> maxOutputSize
               \<and> \<not> string_includes (h_output h @ accepted (h_outputSize h) ds) ''Output truncated''
            then [(now, ''Output truncated due to size limit'')] else [])"
  using assms
proof (induction ds arbitrary: h)
  case Nil
  then show ?case by simp
next
  case (Cons d ds)
  let ?h1 = "handleData now h d"
  let ?n = "h_outputSize h + byte_length d"
  have sz: "h_outputSize ?h1 = ?n" by (simp add: handleData_def Let_def)
  show ?case
  proof (cases "?n < maxOutputSize")
    case True
    have o: "h_output ?h1 = h_output h @ toString d" "logs (h_job ?h1) = logs (h_job h)"
      using True by (simp_all add: handleData_def Let_def)
    have small: "h_outputSize ?h1 < maxOutputSize" using True sz by simp
    from Cons.IH [OF small] o sz True show ?thesis by (simp add: add.assoc)
  next
    case False
    then have big: "h_outputSize ?h1 \<ge> maxOutputSize" using sz by simp
    have total: "h_outputSize h + sum_list (map byte_length (d # ds)) \<ge> maxOutputSize"
      using False by simp
    have acc: "accepted (h_outputSize h) (d # ds) = []" using False by simp
    note rest = handleData_over_cap [OF big, of now ds]
    show ?thesis
    proof (cases "string_includes (h_output h) ''Output truncated''")
      case True
      have o: "h_output ?h1 = h_output h" "logs (h_job ?h1) = logs (h_job h)"
        using False True by (simp_all add: handleData_def Let_def)
      from rest o True acc total show ?thesis by simp
    next
      case nin: False
      have o: "h_output ?h1 = h_output h @ truncation_marker"
        "logs (h_job ?h1) = logs (h_job h) @ [(now, ''Output truncated due to size limit'')]"
        using False nin by (simp_all add: handleData_def Let_def log_line_def)
      have inc: "string_includes (h_output ?h1) ''Output truncated''"
        unfolding o by (rule marker_includes)
      from rest o inc nin acc total show ?thesis by simp
    qed
  qed
qed

lemma accepted_bound:
  assumes "\<forall>d\<in>set ds. length (toString d) \<le> byte_length d" "n < maxOutputSize"
  shows "n + length (accepted n ds) < maxOutputSize"
  using assms
proof (induction ds arbitrary: n)
  case Nil
  then show ?case by simp
next
  case (Cons d ds)
  show ?case
  proof (cases "n + byte_length d < maxOutputSize")
    case True
    have "\<forall>d\<in>set ds. length (toString d) \<le> byte_length d" using Cons.prems(1) by simp
    from Cons.IH [OF this True] Cons.prems(1) True show ?thesis by simp
  next
    case False
    then show ?thesis using Cons.prems(2) by simp
  qed
qed

text \<open>
  C5, as stated, fails: the marker is not appended exactly once whenever the cap is
  reached. The guard that keeps it from being appended twice is that the buffer does
  not contain the text \<^verbatim>\<open>Output truncated\<close>; a child that prints that text itself and
  then exceeds the cap gets no marker and no log line, though its later bytes are
  discarded.
\<close>

lemma big_chunk_length: "byte_length big_chunk = 1048576"
  unfolding big_chunk_def by (rule buffer.sel)

theorem output_marker_counterexample:
  "h_outputSize (foldl (handleData 7000) (start_harness (demo_job uuid0 Running None))
                   [Buffer 16 ''Output truncated'', big_chunk]) \<ge> maxOutputSize \<and>
   h_output (foldl (handleData 7000) (start_harness (demo_job uuid0 Running None))
               [Buffer 16 ''Output truncated'', big_chunk]) = ''Output truncated'' \<and>
   logs (h_job (foldl (handleData 7000) (start_harness (demo_job uuid0 Running None))
                  [Buffer 16 ''Output truncated'', big_chunk])) = []"
proof -
  have inc: "string_includes ''Output truncated'' ''Output truncated''"
    by (simp add: string_includes_def)
  show ?thesis
    using inc
    by (simp add: handleData_def start_harness_def maxOutputSize_def big_chunk_length
        demo_job_def new_job_def Let_def)
qed

text \<open>
  C5, amended. For every sequence of chunks of one invocation, the buffer is the text
  of the chunks accepted before the count of bytes reached 1 MiB, followed by the
  truncation marker at most once: exactly once when the cap was reached and the
  accepted text does not itself contain \<^verbatim>\<open>Output truncated\<close>, not at all otherwise
  (and the job log gets the truncation line as often). Every byte from the chunk that
  reaches the cap on is discarded. Where decoding a chunk gives no more characters than
  it has bytes, the buffer is shorter than the cap plus the marker.
\<close>

theorem output_capped_and_marked_at_most_once:
  "h_output (foldl (handleData now) (start_harness j) ds) =
     accepted 0 ds @
     (if sum_list (map byte_length ds) \<ge> maxOutputSize
         \<and> \<not> string_includes (accepted 0 ds) ''Output truncated''
      then truncation_marker else []) \<and>
   logs (h_job (foldl (handleData now) (start_harness j) ds)) =
     logs j @
     (if sum_list (map byte_length ds) \<ge> maxOutputSize
         \<and> \<not> string_includes (accepted 0 ds) ''Output truncated''
      then [(now, ''Output truncated due to size limit'')] else []) \<and>
   ((\<forall>d\<in>set ds. length (toString d) \<le> byte_length d)
    \<longrightarrow> length (h_output (foldl (handleData now) (start_harness j) ds))
          < maxOutputSize + length truncation_marker)"
proof -
  have z: "h_outputSize (start_harness j) < maxOutputSize"
    by (simp add: start_harness_def maxOutputSize_def)
  have s: "h_outputSize (start_harness j) = 0" "h_output (start_harness j) = []"
    "h_job (start_harness j) = j"
    by (simp_all add: start_harness_def)
  note c = handleData_under_cap [OF z, of now ds, unfolded s, simplified]
  have b: "length (accepted 0 ds) < maxOutputSize"
    if "\<forall>d\<in>set ds. length (toString d) \<le> byte_length d"
    using accepted_bound [OF that, of 0] by (simp add: maxOutputSize_def)
  show ?thesis using c b by auto
qed

lemma big_chunk_text: "length (toString big_chunk) = 1048576"
proof -
  have "toString big_chunk = replicate 1048576 CHR ''x''"
    unfolding big_chunk_def by (rule buffer.sel)
  then show ?thesis by (simp only: length_replicate)
qed

theorem output_capped_and_marked_at_most_once_witness:
  "h_output (foldl (handleData 7000) (start_harness (demo_job uuid0 Running None))
               [Buffer 2 ''ok'', big_chunk]) = ''ok'' @ truncation_marker \<and>
   logs (h_job (foldl (handleData 7000) (start_harness (demo_job uuid0 Running None))
                  [Buffer 2 ''ok'', big_chunk]))
     = [(7000, ''Output truncated due to size limit'')] \<and>
   length (h_output (foldl (handleData 7000) (start_harness (demo_job uuid0 Running None))
                       [Buffer 2 ''ok'', big_chunk]))
     < maxOutputSize + length truncation_marker"
proof -
  have dec: "\<forall>d\<in>set [Buffer 2 ''ok'', big_chunk]. length (toString d) \<le> byte_length d"
    by (simp add: big_chunk_text big_chunk_length)
  have acc: "accepted 0 [Buffer 2 ''ok'', big_chunk] = ''ok''"
    by (simp add: big_chunk_length maxOutputSize_def)
  have tot: "sum_list (map byte_length [Buffer 2 ''ok'', big_chunk]) \<ge> maxOutputSize"
    by (simp add: big_chunk_length maxOutputSize_def)
  have nin: "\<not> string_includes ''ok'' ''Output truncated''"
    by code_simp
  have lg: "logs (demo_job uuid0 Running None) = []"
    by (simp add: demo_job_def new_job_def)
  note main = output_capped_and_marked_at_most_once
         [of 7000 "demo_job uuid0 Running None" "[Buffer 2 ''ok'', big_chunk]"]
  from main have 1: "h_output (foldl (handleData 7000) (start_harness (demo_job uuid0 Running None))
               [Buffer 2 ''ok'', big_chunk]) = ''ok'' @ truncation_marker"
    by (simp only: acc tot nin simp_thms if_True)
  from main have 2: "logs (h_job (foldl (handleData 7000) (start_harness (demo_job uuid0 Running None))
                  [Buffer 2 ''ok'', big_chunk]))
     = [(7000, ''Output truncated due to size limit'')]"
    by (simp only: acc tot nin lg simp_thms if_True append_Nil)
  from main dec have 3: "length (h_output (foldl (handleData 7000) (start_harness (demo_job uuid0 Running None))
                       [Buffer 2 ''ok'', big_chunk]))
     < maxOutputSize + length truncation_marker"
    by blast
  from 1 2 3 show ?thesis by blast
qed






lemma resolve_unsettled: "h_result h = None \<Longrightarrow> resolve r h = h\<lparr>h_result := Some r\<rparr>"
  by (simp add: resolve_def)















section \<open>Properties of the pipeline\<close>

lemma runSingleIteration_thrown:
  assumes "generatePluginCode anth (generation env) (j\<lparr>currentPhase := ''generating''\<rparr>) = Inl msg"
  shows "runSingleIteration anth which parse env j
         = Some (False, caught (clock env) msg (j\<lparr>currentPhase := ''generating''\<rparr>))"
  using assms by (simp add: runSingleIteration_def Let_def)

lemma caught_fields:
  "status (caught now m j) = status j" "completedAt (caught now m j) = Some now"
  "error (caught now m j) = Some m"
  "errors (caught now m j) =
     errors j @ [\<lparr>e_iteration = currentIteration j, e_phase = currentPhase j,
                  e_error = m, e_timestamp = now\<rparr>]"
  "currentIteration (caught now m j) = currentIteration j"
  "maxIterations (caught now m j) = maxIterations j"
  by (simp_all add: caught_def log_line_def)

text \<open>
  C9. Without a generation provider the validate phase returns success and leaves the
  job as it is, the generate phase throws, and every iteration therefore ends in the
  generate phase: it returns failure with one ledger entry, whose phase is
  \<^verbatim>\<open>generating\<close>; validation is not reached.
\<close>

theorem no_provider_generation_fails_validation_passes:
  "validatePlugin False v j = (True, j) \<and>
   generatePluginCode False gen j = Inl no_provider_message \<and>
   runSingleIteration False which parse env j
     = Some (False, caught (clock env) no_provider_message (j\<lparr>currentPhase := ''generating''\<rparr>)) \<and>
   errors (caught (clock env) no_provider_message (j\<lparr>currentPhase := ''generating''\<rparr>))
     = errors j @ [\<lparr>e_iteration = currentIteration j, e_phase = ''generating'',
                    e_error = no_provider_message, e_timestamp = clock env\<rparr>]"
proof -
  have g: "\<And>x. generatePluginCode False gen x = Inl no_provider_message"
    by (simp add: generatePluginCode_def)
  have g': "generatePluginCode False (generation env) (j\<lparr>currentPhase := ''generating''\<rparr>)
            = Inl no_provider_message"
    by (simp add: generatePluginCode_def)
  show ?thesis
    using g [of j] runSingleIteration_thrown [OF g', of "which" parse]
    by (simp add: validatePlugin_def caught_fields)
qed

text \<open>
  C1 does not hold of the code. The \<^verbatim>\<open>catch\<close> of \<^verbatim>\<open>runSingleIteration\<close> stamps
  \<open>completedAt\<close> and leaves the status alone: a running job whose generate phase throws
  (here: no provider) comes out of the iteration still running, with \<open>completedAt\<close> set.
\<close>

theorem iteration_exception_stamps_completedAt:
  "\<exists>j'. runSingleIteration False which parse env (j\<lparr>status := Running, completedAt := None\<rparr>)
          = Some (False, j') \<and>
        status j' = Running \<and> \<not> terminal (status j') \<and> completedAt j' = Some (clock env)"
proof -
  let ?j = "j\<lparr>status := Running, completedAt := None\<rparr>"
  have g': "generatePluginCode False (generation env) (?j\<lparr>currentPhase := ''generating''\<rparr>)
            = Inl no_provider_message"
    by (simp add: generatePluginCode_def)
  from runSingleIteration_thrown [OF g', of "which" parse]
  show ?thesis by (simp add: caught_fields terminal_def)
qed





lemma buildPlugin_ledger_fields:
  assumes "buildPlugin now which e1 e2 j = Some (ok, j2)"
  shows "errors j2 = errors j" "currentIteration j2 = currentIteration j"
  using buildPlugin_untouched [OF assms] by (simp_all add: untouched_def)

text \<open>
  C3. In an iteration whose generate phase completes and whose build phase returns
  failure, \<open>runSingleIteration\<close> returns failure with the job as the build phase left it
  and exactly one more ledger entry: phase \<^verbatim>\<open>building\<close>, the current iteration, the
  job's error text (the build output; \<^verbatim>\<open>Build failed\<close> when that is empty) and the clock
  reading. Lint, test and validate do not run: the result is the same whatever their
  inputs are, and nothing they would write (log lines, test results, score) is in it.
\<close>

theorem build_failure_short_circuits:
  assumes anth: "anth" and gen: "generation env = None"
    and build: "buildPlugin (clock env) which (install_events env) (build_events env)
                  (j\<lparr>currentPhase := ''building''\<rparr>) = Some (False, j2)"
  shows "runSingleIteration anth which parse env j =
           Some (False,
                 j2\<lparr>errors := errors j @
                      [\<lparr>e_iteration = currentIteration j, e_phase = ''building'',
                        e_error = or_default (error j2) ''Build failed'',
                        e_timestamp = clock env\<rparr>]\<rparr>) \<and>
         runSingleIteration anth which parse'
             (env\<lparr>lint_events := l, test_events := t, validation := v\<rparr>) j =
           runSingleIteration anth which parse env j"
proof -
  have g: "\<And>x. generatePluginCode anth (generation env) x = Inr x"
    using anth gen by (simp add: generatePluginCode_def)
  note f = buildPlugin_ledger_fields [OF build]
  have f': "errors j2 = errors j" "currentIteration j2 = currentIteration j"
    using f by simp_all
  have 1: "runSingleIteration anth which parse env j =
           Some (False,
                 j2\<lparr>errors := errors j @
                      [\<lparr>e_iteration = currentIteration j, e_phase = ''building'',
                        e_error = or_default (error j2) ''Build failed'',
                        e_timestamp = clock env\<rparr>]\<rparr>)"
    using build by (simp add: runSingleIteration_def Let_def g record_failure_def f')
  have 2: "runSingleIteration anth which parse'
             (env\<lparr>lint_events := l, test_events := t, validation := v\<rparr>) j =
           Some (False,
                 j2\<lparr>errors := errors j @
                      [\<lparr>e_iteration = currentIteration j, e_phase = ''building'',
                        e_error = or_default (error j2) ''Build failed'',
                        e_timestamp = clock env\<rparr>]\<rparr>)"
    using build gen anth
    by (simp add: runSingleIteration_def Let_def generatePluginCode_def record_failure_def f')
  from 1 2 show ?thesis by simp
qed


lemmas harness_eval =
  runCommand_def spawn_state_def start_harness_def resolve_tool_def packageManagers_def
  adjust_args_def on_event_def handleData_def resolve_def maxOutputSize_def Let_def
  log_line_def signal_child_def

theorem build_failure_short_circuits_witness:
  "(case runSingleIteration True (\<lambda>p. p = ''npm'') no_parse failing_build_env
           (demo_job uuid0 Running None) of
      None \<Rightarrow> False
    | Some (ok, j') \<Rightarrow>
        \<not> ok \<and> map e_phase (errors j') = [''building''] \<and>
        map e_error (errors j') = [''tsc error''] \<and> map e_iteration (errors j') = [0])"
proof -
  let ?j = "demo_job uuid0 Running None"
  let ?b = "buildPlugin (clock failing_build_env) (\<lambda>p. p = ''npm'')
              (install_events failing_build_env) (build_events failing_build_env)
              (?j\<lparr>currentPhase := ''building''\<rparr>)"
  have gen: "generation failing_build_env = None"
    by (simp add: failing_build_env_def quiet_env_def)
  have e: "case ?b of None \<Rightarrow> False | Some (ok, j2) \<Rightarrow> \<not> ok \<and> error j2 = Some ''tsc error''"
    by (simp add: buildPlugin_def harness_eval failing_build_env_def quiet_env_def)
  then obtain j2 where b: "?b = Some (False, j2)" and er: "error j2 = Some ''tsc error''"
    by (cases ?b) auto
  have j: "errors ?j = []" "currentIteration ?j = 0"
    by (simp_all add: demo_job_def new_job_def)
  from build_failure_short_circuits
         [where parse = no_parse and parse' = no_parse and l = "[]" and t = "[]"
            and v = "Verdict 100 True []", OF TrueI gen b]
  show ?thesis by (simp add: er j or_default_def)
qed

end
